theory Spec2Isabelle
  imports Complex_Main
begin

section \<open>Scalars and column vectors\<close>

text \<open>
  The class \<open>KMeans<ScalarT, EigenDim, DistAdaptor>\<close> of
  \<open>include/cilantro/kmeans.hpp\<close> is instantiated at \<open>float\<close> with the squared
  Euclidean metric (\<open>KMeans2D\<close>, \<open>KMeans3D\<close>).  Coordinates handed in by the caller are
  real numbers.  A scalar computed by the program is a real number or one of the IEEE
  values the program can create itself by dividing by a zero point count: plus infinity,
  minus infinity and not-a-number.  The sums, products and squared distances below are
  exact: they do not round and do not overflow, which \<open>float\<close> does.  Where a statement
  about the assignment pass must not depend on that, the pass is taken with the evaluated
  distance as a parameter (\<open>assign_brute_metric\<close> below), so that it covers whatever
  value the arithmetic of \<open>ScalarT\<close>, or the metric of another \<open>DistAdaptor\<close>, yields.
\<close>

datatype scalar = Fin real | PInf | NInf | NaN

fun s_neg :: "scalar \<Rightarrow> scalar" where
  "s_neg (Fin a) = Fin (- a)"
| "s_neg PInf = NInf"
| "s_neg NInf = PInf"
| "s_neg NaN = NaN"

fun s_add :: "scalar \<Rightarrow> scalar \<Rightarrow> scalar" where
  "s_add (Fin a) (Fin b) = Fin (a + b)"
| "s_add NaN _ = NaN"
| "s_add _ NaN = NaN"
| "s_add PInf NInf = NaN"
| "s_add NInf PInf = NaN"
| "s_add PInf _ = PInf"
| "s_add _ PInf = PInf"
| "s_add NInf _ = NInf"
| "s_add _ NInf = NInf"

definition s_sub :: "scalar \<Rightarrow> scalar \<Rightarrow> scalar" where
  "s_sub a b = s_add a (s_neg b)"

fun s_mul :: "scalar \<Rightarrow> scalar \<Rightarrow> scalar" where
  "s_mul (Fin a) (Fin b) = Fin (a * b)"
| "s_mul NaN _ = NaN"
| "s_mul _ NaN = NaN"
| "s_mul PInf (Fin b) = (if b = 0 then NaN else if 0 < b then PInf else NInf)"
| "s_mul NInf (Fin b) = (if b = 0 then NaN else if 0 < b then NInf else PInf)"
| "s_mul (Fin a) PInf = (if a = 0 then NaN else if 0 < a then PInf else NInf)"
| "s_mul (Fin a) NInf = (if a = 0 then NaN else if 0 < a then NInf else PInf)"
| "s_mul PInf PInf = PInf"
| "s_mul NInf NInf = PInf"
| "s_mul PInf NInf = NInf"
| "s_mul NInf PInf = NInf"

text \<open>The comparison \<open>a < b\<close>: false as soon as one side is not-a-number.\<close>

fun s_less :: "scalar \<Rightarrow> scalar \<Rightarrow> bool" where
  "s_less (Fin a) (Fin b) = (a < b)"
| "s_less (Fin a) PInf = True"
| "s_less NInf (Fin b) = True"
| "s_less NInf PInf = True"
| "s_less _ _ = False"

text \<open>
  \<open>scale = 1.0 / point_count[i]\<close>: the count is converted to floating point, and the
  division of one by zero is plus infinity.
\<close>

definition recip_count :: "nat \<Rightarrow> scalar" where
  "recip_count n = (if n = 0 then PInf else Fin (1 / real n))"

type_synonym vec = "scalar list"

text \<open>
  A matrix is the list of its columns.  All columns of the data and of the centroid matrix
  have the \<open>EigenDim\<close> rows of the class, so the coefficient-wise operations below pair
  the entries of two columns of one length.
\<close>

definition v_add :: "vec \<Rightarrow> vec \<Rightarrow> vec" where
  "v_add a b = map2 s_add a b"

definition v_sub :: "vec \<Rightarrow> vec \<Rightarrow> vec" where
  "v_sub a b = map2 s_sub a b"

definition v_scale :: "vec \<Rightarrow> scalar \<Rightarrow> vec" where
  "v_scale a s = map (\<lambda>x. s_mul x s) a"

definition squaredNorm :: "vec \<Rightarrow> scalar" where
  "squaredNorm a = foldl s_add (Fin 0) (map (\<lambda>x. s_mul x x) a)"

text \<open>\<open>(cluster_centroids_.col(j) - data_map_.col(i)).squaredNorm()\<close>\<close>

definition sq_dist :: "vec \<Rightarrow> vec \<Rightarrow> scalar" where
  "sq_dist c p = squaredNorm (v_sub c p)"

text \<open>The column of a caller's matrix of reals.\<close>

definition col :: "real list list \<Rightarrow> nat \<Rightarrow> vec" where
  "col ps i = map Fin (ps ! i)"

text \<open>
  The outcomes the C++ standard leaves undefined and that the code can reach: reading the
  local \<open>extr_dist_ind\<close> before anything was stored in it, indexing a vector or a
  matrix outside its range, and the remainder of a division by zero.  The source has no
  \<open>throw\<close> and checks no argument, so these are the only failures of the model.
\<close>

datatype undefined_behaviour = IndeterminateRead | IndexOutOfRange | RemainderByZero

section \<open>The object\<close>

record kmeans =
  data_map :: "real list list"
  cluster_centroids :: "vec list"
  cluster_point_indices :: "nat list list"
  cluster_index_map :: "nat list"
  iteration_count :: nat

text \<open>The constructor: the members that are vectors and matrices start empty.\<close>

definition KMeans :: "real list list \<Rightarrow> kmeans" where
  "KMeans data = \<lparr> data_map = data, cluster_centroids = [], cluster_point_indices = [],
     cluster_index_map = [], iteration_count = 0 \<rparr>"

text \<open>
  \<open>std::vector::resize(n)\<close>: the first \<open>n\<close> elements are kept, and new elements are
  value-initialised (\<open>d\<close> is zero for an index and the empty vector for a bucket).
\<close>

definition resize :: "nat \<Rightarrow> 'a \<Rightarrow> 'a list \<Rightarrow> 'a list" where
  "resize n d xs = take n xs @ replicate (n - length xs) d"

section \<open>The assignment pass\<close>

text \<open>
  The brute-force scan over the clusters for one point \<open>p\<close>: \<open>extr_dist\<close> starts at
  plus infinity, and cluster \<open>j\<close> replaces the current choice when its distance is
  strictly smaller.  The accumulator is the pair \<open>(extr_dist, extr_dist_ind)\<close>; the index
  is \<open>None\<close> as long as nothing was ever stored in the local variable.  The pragmas are
  read as comments (a build without OpenMP), so the local keeps its last value from one
  point to the next.
\<close>

definition nearest_step :: "vec list \<Rightarrow> vec \<Rightarrow> nat \<Rightarrow> scalar \<times> nat option \<Rightarrow> scalar \<times> nat option" where
  "nearest_step cs p j acc =
     (let dst = sq_dist (cs ! j) p
      in if s_less dst (fst acc) then (dst, Some j) else acc)"

definition nearest :: "vec list \<Rightarrow> vec \<Rightarrow> nat option \<Rightarrow> scalar \<times> nat option" where
  "nearest cs p ind = fold (nearest_step cs p) [0..<length cs] (PInf, ind)"

text \<open>
  The loop over the points.  The state is the index map, the local \<open>extr_dist_ind\<close> and
  the flag \<open>assignments_unchanged\<close>.
\<close>

fun assign_brute ::
  "real list list \<Rightarrow> vec list \<Rightarrow> nat list \<Rightarrow> nat list \<times> nat option \<times> bool
   \<Rightarrow> undefined_behaviour + (nat list \<times> nat option \<times> bool)" where
  "assign_brute ps cs [] s = Inr s"
| "assign_brute ps cs (i # is) (m, ind, unch) =
     (case snd (nearest cs (col ps i) ind) of
        None \<Rightarrow> Inl IndeterminateRead
      | Some e \<Rightarrow> assign_brute ps cs is (m[i := e], Some e, unch \<and> m ! i = e))"

text \<open>
  The path through the search tree.  \<open>kd_tree.hpp\<close> is not part of the sources, so the
  query \<open>tree.kNNSearch(point, 1, neighbors, distances)\<close> on the tree built over the
  centroids is the parameter \<open>knn\<close>, which returns the list \<open>neighbors\<close>.
\<close>

fun assign_kd ::
  "(vec list \<Rightarrow> vec \<Rightarrow> nat list) \<Rightarrow> real list list \<Rightarrow> vec list \<Rightarrow> nat list
   \<Rightarrow> nat list \<times> bool \<Rightarrow> undefined_behaviour + (nat list \<times> bool)" where
  "assign_kd knn ps cs [] s = Inr s"
| "assign_kd knn ps cs (i # is) (m, unch) =
     (case knn cs (col ps i) of
        [] \<Rightarrow> Inl IndexOutOfRange
      | nb # _ \<Rightarrow> assign_kd knn ps cs is (m[i := nb], unch \<and> m ! i = nb))"

definition update_assignments ::
  "(vec list \<Rightarrow> vec \<Rightarrow> nat list) \<Rightarrow> bool \<Rightarrow> real list list \<Rightarrow> vec list \<Rightarrow> nat list
   \<Rightarrow> nat option \<Rightarrow> undefined_behaviour + (nat list \<times> nat option \<times> bool)" where
  "update_assignments knn use_kd_tree ps cs m ind =
     (if use_kd_tree then
        (case assign_kd knn ps cs [0..<length ps] (m, True) of
           Inl e \<Rightarrow> Inl e
         | Inr (m', unch) \<Rightarrow> Inr (m', ind, unch))
      else assign_brute ps cs [0..<length ps] (m, ind, True))"

text \<open>
  The brute-force loop once more, for any evaluation of \<open>dist\<close>.  The source computes
  \<open>dist\<close> either as the squared norm of the difference (line 107) or by
  \<open>dist_adaptor.evalMetric\<close> (line 109), in the arithmetic of \<open>ScalarT\<close>; \<open>metric c p\<close>
  is the value computed for the centroid column \<open>c\<close> and the point \<open>p\<close>, and nothing is
  assumed about it.  With \<open>sq_dist\<close> for \<open>metric\<close> these are the three functions
  above.
\<close>

definition nearest_step_metric ::
  "(vec \<Rightarrow> vec \<Rightarrow> scalar) \<Rightarrow> vec list \<Rightarrow> vec \<Rightarrow> nat \<Rightarrow> scalar \<times> nat option
   \<Rightarrow> scalar \<times> nat option" where
  "nearest_step_metric metric cs p j acc =
     (let dst = metric (cs ! j) p
      in if s_less dst (fst acc) then (dst, Some j) else acc)"

definition nearest_metric ::
  "(vec \<Rightarrow> vec \<Rightarrow> scalar) \<Rightarrow> vec list \<Rightarrow> vec \<Rightarrow> nat option \<Rightarrow> scalar \<times> nat option" where
  "nearest_metric metric cs p ind =
     fold (nearest_step_metric metric cs p) [0..<length cs] (PInf, ind)"

fun assign_brute_metric ::
  "(vec \<Rightarrow> vec \<Rightarrow> scalar) \<Rightarrow> real list list \<Rightarrow> vec list \<Rightarrow> nat list
   \<Rightarrow> nat list \<times> nat option \<times> bool
   \<Rightarrow> undefined_behaviour + (nat list \<times> nat option \<times> bool)" where
  "assign_brute_metric metric ps cs [] s = Inr s"
| "assign_brute_metric metric ps cs (i # is) (m, ind, unch) =
     (case snd (nearest_metric metric cs (col ps i) ind) of
        None \<Rightarrow> Inl IndeterminateRead
      | Some e \<Rightarrow> assign_brute_metric metric ps cs is (m[i := e], Some e, unch \<and> m ! i = e))"

section \<open>Centroid update and empty-cluster repair\<close>

text \<open>
  The sums and counts: every point adds its column to the column of its cluster and
  increments that cluster's count.  A count is at most the number of points, which is a
  \<open>size_t\<close> itself, so this increment does not wrap.
\<close>

fun accumulate ::
  "real list list \<Rightarrow> nat list \<Rightarrow> nat list \<Rightarrow> vec list \<times> nat list
   \<Rightarrow> undefined_behaviour + (vec list \<times> nat list)" where
  "accumulate ps m [] s = Inr s"
| "accumulate ps m (i # is) (cs, pc) =
     (if m ! i < length cs
      then accumulate ps m is
             (cs[m ! i := v_add (cs ! (m ! i)) (col ps i)], pc[m ! i := pc ! (m ! i) + 1])
      else Inl IndexOutOfRange)"

text \<open>The largest cluster: a later cluster wins only with a strictly larger count.\<close>

definition largest_cluster :: "nat list \<Rightarrow> nat" where
  "largest_cluster pc =
     fold (\<lambda>j max_ind. if pc ! max_ind < pc ! j then j else max_ind) [1..<length pc] 0"

text \<open>
  The point of cluster \<open>max_ind\<close> furthest from \<open>old_centroid\<close>: \<open>extr_dist\<close> starts at
  \<open>-1\<close>, and a point replaces the current choice when its distance is strictly larger.
\<close>

definition farthest_step ::
  "real list list \<Rightarrow> nat list \<Rightarrow> nat \<Rightarrow> vec \<Rightarrow> nat \<Rightarrow> scalar \<times> nat option \<Rightarrow> scalar \<times> nat option" where
  "farthest_step ps m max_ind old_centroid j acc =
     (if m ! j = max_ind
      then (let dst = sq_dist old_centroid (col ps j)
            in if s_less (fst acc) dst then (dst, Some j) else acc)
      else acc)"

definition farthest ::
  "real list list \<Rightarrow> nat list \<Rightarrow> nat \<Rightarrow> vec \<Rightarrow> nat option \<Rightarrow> scalar \<times> nat option" where
  "farthest ps m max_ind old_centroid ind =
     fold (farthest_step ps m max_ind old_centroid) [0..<length ps] (Fin (- 1), ind)"

text \<open>
  \<open>point_count[max_ind]--\<close> and \<open>point_count[i]++\<close> on a \<open>size_t\<close> of 64 bits: the
  decrement of zero and the increment of the largest value wrap around.
\<close>

definition dec_size_t :: "nat \<Rightarrow> nat" where
  "dec_size_t n = (if n = 0 then 2 ^ 64 - 1 else n - 1)"

definition inc_size_t :: "nat \<Rightarrow> nat" where
  "inc_size_t n = (if n = 2 ^ 64 - 1 then 0 else n + 1)"

text \<open>
  The body of the repair loop for cluster \<open>i\<close>.  The state is the matrix of sums, the
  counts, the index map and the local \<open>extr_dist_ind\<close>.
\<close>

definition repair_cluster ::
  "real list list \<Rightarrow> nat \<Rightarrow> vec list \<times> nat list \<times> nat list \<times> nat option
   \<Rightarrow> undefined_behaviour + (vec list \<times> nat list \<times> nat list \<times> nat option)" where
  "repair_cluster ps i s =
     (case s of (cs, pc, m, ind) \<Rightarrow>
        if pc ! i \<noteq> 0 then Inr s
        else
          let max_ind = largest_cluster pc;
              scale = recip_count (pc ! max_ind);
              old_centroid = v_scale (cs ! max_ind) scale
          in case snd (farthest ps m max_ind old_centroid ind) of
               None \<Rightarrow> Inl IndeterminateRead
             | Some e \<Rightarrow>
                 if e < length m \<and> e < length ps then
                   let m1 = m[e := i];
                       cs1 = cs[max_ind := v_sub (cs ! max_ind) (col ps e)];
                       pc1 = pc[max_ind := dec_size_t (pc ! max_ind)];
                       pc2 = pc1[i := inc_size_t (pc1 ! i)]
                   in Inr (cs1, pc2, m1, Some e)
                 else Inl IndexOutOfRange)"

fun repair_loop ::
  "real list list \<Rightarrow> nat list \<Rightarrow> vec list \<times> nat list \<times> nat list \<times> nat option
   \<Rightarrow> undefined_behaviour + (vec list \<times> nat list \<times> nat list \<times> nat option)" where
  "repair_loop ps [] s = Inr s"
| "repair_loop ps (i # is) s =
     (case repair_cluster ps i s of Inl e \<Rightarrow> Inl e | Inr s' \<Rightarrow> repair_loop ps is s')"

text \<open>
  \<open>setZero\<close>, the accumulation and the repair of one iteration: the sums and counts
  that the final division works on.
\<close>

definition accumulate_and_repair ::
  "real list list \<Rightarrow> nat list \<Rightarrow> vec list \<Rightarrow> nat option
   \<Rightarrow> undefined_behaviour + (vec list \<times> nat list \<times> nat list \<times> nat option)" where
  "accumulate_and_repair ps m cs ind =
     (case accumulate ps m [0..<length ps]
             (map (map (\<lambda>_. Fin 0)) cs, replicate (length cs) 0) of
        Inl e \<Rightarrow> Inl e
      | Inr (sm, pc) \<Rightarrow> repair_loop ps [0..<length cs] (sm, pc, m, ind))"

text \<open>The final division: column \<open>i\<close> is multiplied by \<open>1.0 / point_count[i]\<close>.\<close>

definition compute_new_centroids :: "vec list \<Rightarrow> nat list \<Rightarrow> vec list" where
  "compute_new_centroids cs pc =
     map (\<lambda>i. v_scale (cs ! i) (recip_count (pc ! i))) [0..<length cs]"

definition update_centroids ::
  "real list list \<Rightarrow> nat list \<Rightarrow> vec list \<Rightarrow> nat option
   \<Rightarrow> undefined_behaviour + (vec list \<times> nat list \<times> nat option)" where
  "update_centroids ps m cs ind =
     (case accumulate_and_repair ps m cs ind of
        Inl e \<Rightarrow> Inl e
      | Inr (sm, pc, m', ind') \<Rightarrow> Inr (compute_new_centroids sm pc, m', ind'))"

section \<open>Convergence, the loop and the buckets\<close>

text \<open>
  \<open>maxCoeff\<close> is Eigen's reduction with \<open>max\<close>, from the first coefficient to the last;
  on an empty matrix it has no defined result.
\<close>

definition maxCoeff :: "scalar list \<Rightarrow> undefined_behaviour + scalar" where
  "maxCoeff xs =
     (case xs of
        [] \<Rightarrow> Inl IndexOutOfRange
      | x # r \<Rightarrow> Inr (fold (\<lambda>y res. if s_less res y then y else res) r x))"

definition converged :: "scalar \<Rightarrow> vec list \<Rightarrow> vec list \<Rightarrow> undefined_behaviour + bool" where
  "converged tol centroids_old cs =
     (if s_less (Fin 0) tol then
        (case maxCoeff (map squaredNorm (map2 v_sub cs centroids_old)) of
           Inl e \<Rightarrow> Inl e
         | Inr mx \<Rightarrow> Inr (s_less mx (s_mul tol tol)))
      else Inr False)"

function cluster_loop ::
  "(vec list \<Rightarrow> vec \<Rightarrow> nat list) \<Rightarrow> nat \<Rightarrow> scalar \<Rightarrow> bool \<Rightarrow> kmeans \<times> nat option
   \<Rightarrow> undefined_behaviour + kmeans" where
  "cluster_loop knn max_iter tol use_kd_tree (st, ind) =
     (if iteration_count st < max_iter then
        (case update_assignments knn use_kd_tree (data_map st) (cluster_centroids st)
                (cluster_index_map st) ind of
           Inl e \<Rightarrow> Inl e
         | Inr (m1, ind1, assignments_unchanged) \<Rightarrow>
             if assignments_unchanged then Inr (st\<lparr>cluster_index_map := m1\<rparr>)
             else
               (case update_centroids (data_map st) m1 (cluster_centroids st) ind1 of
                  Inl e \<Rightarrow> Inl e
                | Inr (cs2, m2, ind2) \<Rightarrow>
                    (case converged tol (cluster_centroids st) cs2 of
                       Inl e \<Rightarrow> Inl e
                     | Inr stop \<Rightarrow>
                         if stop
                         then Inr (st\<lparr>cluster_centroids := cs2, cluster_index_map := m2,
                                    iteration_count := iteration_count st + 1\<rparr>)
                         else cluster_loop knn max_iter tol use_kd_tree
                                (st\<lparr>cluster_centroids := cs2, cluster_index_map := m2,
                                    iteration_count := iteration_count st + 1\<rparr>, ind2))))
      else Inr st)"
  by pat_completeness auto
termination
  by (relation "measure (\<lambda>(knn, max_iter, tol, use_kd_tree, st, ind). max_iter - iteration_count st)")
    auto

declare cluster_loop.simps [simp del]

fun fill_buckets :: "nat list \<Rightarrow> nat list \<Rightarrow> nat list list \<Rightarrow> undefined_behaviour + nat list list" where
  "fill_buckets m [] b = Inr b"
| "fill_buckets m (i # is) b =
     (if m ! i < length b
      then fill_buckets m is (b[m ! i := b ! (m ! i) @ [i]])
      else Inl IndexOutOfRange)"

text \<open>The private member function \<open>cluster_\<close> (a name cannot end in an underscore here).\<close>

definition cluster_impl ::
  "(vec list \<Rightarrow> vec \<Rightarrow> nat list) \<Rightarrow> nat \<Rightarrow> scalar \<Rightarrow> bool \<Rightarrow> kmeans
   \<Rightarrow> undefined_behaviour + kmeans" where
  "cluster_impl knn max_iter tol use_kd_tree st =
     (let num_clusters = length (cluster_centroids st);
          num_points = length (data_map st);
          st0 = st\<lparr>cluster_index_map := resize num_points 0 (cluster_index_map st),
                   iteration_count := 0\<rparr>
      in case cluster_loop knn max_iter tol use_kd_tree (st0, None) of
           Inl e \<Rightarrow> Inl e
         | Inr st1 \<Rightarrow>
             (case fill_buckets (cluster_index_map st1) [0..<num_points]
                     (resize num_clusters [] (cluster_point_indices st1)) of
                Inl e \<Rightarrow> Inl e
              | Inr b \<Rightarrow> Inr (st1\<lparr>cluster_point_indices := b\<rparr>)))"

section \<open>The two public entry points\<close>

text \<open>\<open>cluster(centroids, max_iter, tol, use_kd_tree)\<close>: the centroids are copied as given.\<close>

definition cluster_from_centroids ::
  "(vec list \<Rightarrow> vec \<Rightarrow> nat list) \<Rightarrow> kmeans \<Rightarrow> real list list \<Rightarrow> nat \<Rightarrow> scalar \<Rightarrow> bool
   \<Rightarrow> undefined_behaviour + kmeans" where
  "cluster_from_centroids knn st centroids max_iter tol use_kd_tree =
     cluster_impl knn max_iter tol use_kd_tree (st\<lparr>cluster_centroids := map (map Fin) centroids\<rparr>)"

text \<open>
  \<open>cluster(num_clusters, max_iter, tol, use_kd_tree)\<close>.  The \<open>i\<close>-th number drawn from
  the random engine is \<open>rnd i\<close>.  The state of the selection loop is the centroid matrix,
  the vector \<open>range\<close> (here \<open>idx_range\<close>) and \<open>prev_size\<close>.
\<close>

fun pick_centroids ::
  "(nat \<Rightarrow> nat) \<Rightarrow> real list list \<Rightarrow> nat list \<Rightarrow> vec list \<times> nat list \<times> nat
   \<Rightarrow> undefined_behaviour + (vec list \<times> nat list \<times> nat)" where
  "pick_centroids rnd ps [] s = Inr s"
| "pick_centroids rnd ps (i # is) (cs, idx_range, prev_size) =
     (if prev_size = 0 then Inl RemainderByZero
      else
        let rand_ind = rnd i mod prev_size
        in if rand_ind < length idx_range \<and> idx_range ! rand_ind < length ps \<and> prev_size - 1 < length idx_range
           then pick_centroids rnd ps is
                  (cs[i := col ps (idx_range ! rand_ind)],
                   idx_range[rand_ind := idx_range ! (prev_size - 1), prev_size - 1 := idx_range ! rand_ind],
                   prev_size - 1)
           else Inl IndexOutOfRange)"

definition cluster_num_clusters ::
  "(nat \<Rightarrow> nat) \<Rightarrow> (vec list \<Rightarrow> vec \<Rightarrow> nat list) \<Rightarrow> kmeans \<Rightarrow> nat \<Rightarrow> nat \<Rightarrow> scalar \<Rightarrow> bool
   \<Rightarrow> undefined_behaviour + kmeans" where
  "cluster_num_clusters rnd knn st num_clusters max_iter tol use_kd_tree =
     (let n = length (data_map st);
          k = (if n < num_clusters then n else num_clusters)
      in case pick_centroids rnd (data_map st) [0..<k] (replicate k [], [0..<n], n) of
           Inl e \<Rightarrow> Inl e
         | Inr (cs, idx_range, prev_size) \<Rightarrow>
             cluster_impl knn max_iter tol use_kd_tree (st\<lparr>cluster_centroids := cs\<rparr>))"

section \<open>Predicates of the statements\<close>

text \<open>A scalar, a column and a matrix without an infinite or not-a-number entry.\<close>

primrec is_fin :: "scalar \<Rightarrow> bool" where
  "is_fin (Fin a) = True"
| "is_fin PInf = False"
| "is_fin NInf = False"
| "is_fin NaN = False"

definition fin_vec :: "vec \<Rightarrow> bool" where
  "fin_vec v = list_all is_fin v"

definition fin_mat :: "vec list \<Rightarrow> bool" where
  "fin_mat cs = list_all fin_vec cs"

text \<open>
  Cluster \<open>e\<close> is the nearest centroid of the point \<open>p\<close>, the lowest index winning a tie:
  no centroid is strictly closer, and every centroid of a lower index is strictly further.
\<close>

definition is_nearest :: "vec list \<Rightarrow> vec \<Rightarrow> nat \<Rightarrow> bool" where
  "is_nearest cs p e \<longleftrightarrow>
     e < length cs \<and>
     (\<forall>j<length cs. \<not> s_less (sq_dist (cs ! j) p) (sq_dist (cs ! e) p)) \<and>
     (\<forall>j<e. s_less (sq_dist (cs ! e) p) (sq_dist (cs ! j) p))"

text \<open>
  The same for any evaluated distance.  The point \<open>p\<close> is within reach when the
  distance evaluated for at least one centroid is below plus infinity, and cluster \<open>e\<close> is
  its nearest one when no evaluated distance is strictly smaller than that of \<open>e\<close> and
  every cluster of a lower index has a strictly larger distance or one that is not a number
  (which no comparison orders).
\<close>

definition within_reach :: "(vec \<Rightarrow> vec \<Rightarrow> scalar) \<Rightarrow> vec list \<Rightarrow> vec \<Rightarrow> bool" where
  "within_reach metric cs p \<longleftrightarrow> (\<exists>j<length cs. s_less (metric (cs ! j) p) PInf)"

definition nearest_by :: "(vec \<Rightarrow> vec \<Rightarrow> scalar) \<Rightarrow> vec list \<Rightarrow> vec \<Rightarrow> nat \<Rightarrow> bool" where
  "nearest_by metric cs p e \<longleftrightarrow>
     e < length cs \<and>
     (\<forall>j<length cs. \<not> s_less (metric (cs ! j) p) (metric (cs ! e) p)) \<and>
     (\<forall>j<e. metric (cs ! j) p = NaN \<or> s_less (metric (cs ! e) p) (metric (cs ! j) p))"

text \<open>
  The invariant of the repair loop on the sums \<open>cs\<close>, the counts \<open>pc\<close> and the index map
  \<open>m\<close> of \<open>K\<close> clusters: the sums are finite, every point is in one of the \<open>K\<close>
  clusters, and each count is the number of points the index map gives to its cluster.
\<close>

definition consistent ::
  "real list list \<Rightarrow> nat \<Rightarrow> vec list \<times> nat list \<times> nat list \<times> nat option \<Rightarrow> bool" where
  "consistent ps K s =
     (case s of (cs, pc, m, ind) \<Rightarrow>
        length cs = K \<and> length pc = K \<and> length m = length ps \<and> fin_mat cs \<and>
        (\<forall>x\<in>set m. x < K) \<and> (\<forall>c<K. pc ! c = count_list m c))"

text \<open>
  The progress of the repair loop before it looks at cluster \<open>i\<close>, when there are at least
  as many points as clusters.  \<open>E\<close> is the set of the clusters that the accumulation
  left empty and \<open>Z c\<close> the zero column of cluster \<open>c\<close>: such a cluster keeps its zero
  sum and has one point once the loop has passed it; every other cluster keeps a point.
\<close>

definition repaired_upto ::
  "nat \<Rightarrow> nat set \<Rightarrow> (nat \<Rightarrow> vec) \<Rightarrow> nat
   \<Rightarrow> vec list \<times> nat list \<times> nat list \<times> nat option \<Rightarrow> bool" where
  "repaired_upto K E Z i s =
     (case s of (cs, pc, m, ind) \<Rightarrow>
        \<forall>c<K. (c \<in> E \<longrightarrow> cs ! c = Z c \<and> pc ! c = (if c < i then 1 else 0)) \<and>
              (c \<notin> E \<longrightarrow> 1 \<le> pc ! c))"

text \<open>
  The buckets \<open>B\<close> are an exact partition of the point indices \<open>0, ..., N - 1\<close>: every
  index is in exactly one bucket, no bucket repeats an index or holds anything else, and
  the sizes of the buckets add up to \<open>N\<close>.
\<close>

definition exact_partition :: "nat \<Rightarrow> nat list list \<Rightarrow> bool" where
  "exact_partition N B \<longleftrightarrow>
     (\<forall>i<N. \<exists>!c. c < length B \<and> i \<in> set (B ! c)) \<and>
     (\<forall>c<length B. distinct (B ! c) \<and> set (B ! c) \<subseteq> {0..<N}) \<and>
     sum_list (map length B) = N"

text \<open>
  The state in which \<open>cluster_\<close> enters its loop when it is called on an object as the
  constructor left it: the index map was resized from the empty vector, so it holds zeros.
\<close>

definition fresh :: "real list list \<Rightarrow> vec list \<Rightarrow> kmeans" where
  "fresh ps cs = \<lparr> data_map = ps, cluster_centroids = cs, cluster_point_indices = [],
     cluster_index_map = replicate (length ps) 0, iteration_count = 0 \<rparr>"

section \<open>Unfolding the driver\<close>

lemmas model_defs = cluster_from_centroids_def cluster_impl_def KMeans_def resize_def
  update_assignments_def nearest_def nearest_step_def sq_dist_def squaredNorm_def v_sub_def
  s_sub_def col_def update_centroids_def accumulate_and_repair_def repair_cluster_def
  largest_cluster_def farthest_def farthest_step_def recip_count_def v_scale_def v_add_def
  compute_new_centroids_def converged_def maxCoeff_def dec_size_t_def inc_size_t_def
  cluster_num_clusters_def

lemma cluster_loop_done:
  "\<not> iteration_count st < max_iter \<Longrightarrow> cluster_loop knn max_iter tol kd (st, ind) = Inr st"
  by (simp add: cluster_loop.simps)

lemma cluster_loop_assign_fails:
  "iteration_count st < max_iter \<Longrightarrow>
   update_assignments knn kd (data_map st) (cluster_centroids st) (cluster_index_map st) ind = Inl e \<Longrightarrow>
   cluster_loop knn max_iter tol kd (st, ind) = Inl e"
  by (simp add: cluster_loop.simps)

lemma cluster_loop_unchanged:
  "iteration_count st < max_iter \<Longrightarrow>
   update_assignments knn kd (data_map st) (cluster_centroids st) (cluster_index_map st) ind
     = Inr (m1, ind1, True) \<Longrightarrow>
   cluster_loop knn max_iter tol kd (st, ind) = Inr (st\<lparr>cluster_index_map := m1\<rparr>)"
  by (simp add: cluster_loop.simps)

lemma cluster_impl_loop_fails:
  "cluster_loop knn max_iter tol kd
     (st\<lparr>cluster_index_map := resize (length (data_map st)) 0 (cluster_index_map st),
         iteration_count := 0\<rparr>, None) = Inl e \<Longrightarrow>
   cluster_impl knn max_iter tol kd st = Inl e"
  by (simp add: cluster_impl_def Let_def)

lemma cluster_impl_fill_fails:
  "cluster_loop knn max_iter tol kd
     (st\<lparr>cluster_index_map := resize (length (data_map st)) 0 (cluster_index_map st),
         iteration_count := 0\<rparr>, None) = Inr st1 \<Longrightarrow>
   fill_buckets (cluster_index_map st1) [0..<length (data_map st)]
     (resize (length (cluster_centroids st)) [] (cluster_point_indices st1)) = Inl e \<Longrightarrow>
   cluster_impl knn max_iter tol kd st = Inl e"
  by (simp add: cluster_impl_def Let_def)

lemma cluster_impl_returns:
  "cluster_loop knn max_iter tol kd
     (st\<lparr>cluster_index_map := resize (length (data_map st)) 0 (cluster_index_map st),
         iteration_count := 0\<rparr>, None) = Inr st1 \<Longrightarrow>
   fill_buckets (cluster_index_map st1) [0..<length (data_map st)]
     (resize (length (cluster_centroids st)) [] (cluster_point_indices st1)) = Inr b \<Longrightarrow>
   cluster_impl knn max_iter tol kd st = Inr (st1\<lparr>cluster_point_indices := b\<rparr>)"
  by (simp add: cluster_impl_def Let_def)

lemma length_resize: "length (resize n d xs) = n"
  by (simp add: resize_def)

lemma resize_same_length: "length xs = n \<Longrightarrow> resize n d xs = xs"
  by (simp add: resize_def)

lemma resize_empty: "resize n d [] = replicate n d"
  by (simp add: resize_def)

lemma cluster_impl_cases:
  assumes "cluster_impl knn max_iter tol kd st = Inr st'"
  shows "\<exists>st1 b. cluster_loop knn max_iter tol kd
             (st\<lparr>cluster_index_map := resize (length (data_map st)) 0 (cluster_index_map st),
                 iteration_count := 0\<rparr>, None) = Inr st1 \<and>
           fill_buckets (cluster_index_map st1) [0..<length (data_map st)]
             (resize (length (cluster_centroids st)) [] (cluster_point_indices st1)) = Inr b \<and>
           st' = st1\<lparr>cluster_point_indices := b\<rparr>"
proof -
  let ?init = "st\<lparr>cluster_index_map := resize (length (data_map st)) 0 (cluster_index_map st),
      iteration_count := 0\<rparr>"
  show ?thesis
  proof (cases "cluster_loop knn max_iter tol kd (?init, None)")
    case (Inl e)
    from cluster_impl_loop_fails [OF Inl] assms show ?thesis by simp
  next
    case (Inr st1)
    show ?thesis
    proof (cases "fill_buckets (cluster_index_map st1) [0..<length (data_map st)]
         (resize (length (cluster_centroids st)) [] (cluster_point_indices st1))")
      case (Inl e)
      from cluster_impl_fill_fails [OF Inr Inl] assms show ?thesis by simp
    next
      case fill: (Inr b)
      from cluster_impl_returns [OF Inr fill] assms
      have "st' = st1\<lparr>cluster_point_indices := b\<rparr>" by simp
      with Inr fill show ?thesis by blast
    qed
  qed
qed

lemma assign_brute_no_clusters:
  "is \<noteq> [] \<Longrightarrow> assign_brute ps [] is (m, None, u) = Inl IndeterminateRead"
  by (cases "is") (simp_all add: nearest_def)

lemma fill_buckets_no_clusters:
  "is \<noteq> [] \<Longrightarrow> fill_buckets m is [] = Inl IndexOutOfRange"
  by (cases "is") simp_all

section \<open>The flag of the assignment pass\<close>

text \<open>
  Both assignment loops store a cluster in every position they visit and leave the flag
  true exactly when every stored cluster is the one that was there before.
\<close>

lemma assign_brute_flag:
  "assign_brute ps cs is (m, ind, u) = Inr (m', ind', u') \<Longrightarrow> distinct is \<Longrightarrow>
   \<forall>i\<in>set is. i < length m \<Longrightarrow>
   length m' = length m \<and> (\<forall>j. j \<notin> set is \<longrightarrow> m' ! j = m ! j) \<and>
   (u' \<longleftrightarrow> u \<and> (\<forall>i\<in>set is. m' ! i = m ! i))"
proof (induction "is" arbitrary: m ind u)
  case Nil
  then show ?case by simp
next
  case (Cons i "is")
  from Cons.prems(1) obtain e where
    e: "snd (nearest cs (col ps i) ind) = Some e" and
    rest: "assign_brute ps cs is (m[i := e], Some e, u \<and> m ! i = e) = Inr (m', ind', u')"
    by (auto split: option.splits)
  from Cons.prems have d: "distinct is" "i \<notin> set is" "i < length m"
    and b: "\<forall>k\<in>set is. k < length (m[i := e])" by simp_all
  from Cons.IH [OF rest d(1) b]
  have len: "length m' = length m"
    and out: "\<forall>j. j \<notin> set is \<longrightarrow> m' ! j = m[i := e] ! j"
    and fl: "u' \<longleftrightarrow> (u \<and> m ! i = e) \<and> (\<forall>k\<in>set is. m' ! k = m[i := e] ! k)"
    by simp_all
  from out d have at_i: "m' ! i = e" by simp
  have "\<forall>j. j \<notin> set (i # is) \<longrightarrow> m' ! j = m ! j"
    using out by auto
  moreover have "u' \<longleftrightarrow> u \<and> (\<forall>k\<in>set (i # is). m' ! k = m ! k)"
  proof -
    have same: "\<forall>k\<in>set is. m[i := e] ! k = m ! k"
      using d(2) by (metis nth_list_update_neq)
    from fl same have "u' \<longleftrightarrow> (u \<and> m ! i = e) \<and> (\<forall>k\<in>set is. m' ! k = m ! k)"
      by simp
    moreover have "(\<forall>k\<in>set (i # is). m' ! k = m ! k) \<longleftrightarrow>
        e = m ! i \<and> (\<forall>k\<in>set is. m' ! k = m ! k)"
      using at_i by simp
    ultimately show ?thesis by blast
  qed
  ultimately show ?case using len by blast
qed

lemma assign_kd_flag:
  "assign_kd knn ps cs is (m, u) = Inr (m', u') \<Longrightarrow> distinct is \<Longrightarrow>
   \<forall>i\<in>set is. i < length m \<Longrightarrow>
   length m' = length m \<and> (\<forall>j. j \<notin> set is \<longrightarrow> m' ! j = m ! j) \<and>
   (u' \<longleftrightarrow> u \<and> (\<forall>i\<in>set is. m' ! i = m ! i))"
proof (induction "is" arbitrary: m u)
  case Nil
  then show ?case by simp
next
  case (Cons i "is")
  from Cons.prems(1) obtain e r where
    e: "knn cs (col ps i) = e # r" and
    rest: "assign_kd knn ps cs is (m[i := e], u \<and> m ! i = e) = Inr (m', u')"
    by (auto split: list.splits)
  from Cons.prems have d: "distinct is" "i \<notin> set is" "i < length m"
    and b: "\<forall>k\<in>set is. k < length (m[i := e])" by simp_all
  from Cons.IH [OF rest d(1) b]
  have len: "length m' = length m"
    and out: "\<forall>j. j \<notin> set is \<longrightarrow> m' ! j = m[i := e] ! j"
    and fl: "u' \<longleftrightarrow> (u \<and> m ! i = e) \<and> (\<forall>k\<in>set is. m' ! k = m[i := e] ! k)"
    by simp_all
  from out d have at_i: "m' ! i = e" by simp
  have "\<forall>j. j \<notin> set (i # is) \<longrightarrow> m' ! j = m ! j"
    using out by auto
  moreover have "u' \<longleftrightarrow> u \<and> (\<forall>k\<in>set (i # is). m' ! k = m ! k)"
  proof -
    have same: "\<forall>k\<in>set is. m[i := e] ! k = m ! k"
      using d(2) by (metis nth_list_update_neq)
    from fl same have "u' \<longleftrightarrow> (u \<and> m ! i = e) \<and> (\<forall>k\<in>set is. m' ! k = m ! k)"
      by simp
    moreover have "(\<forall>k\<in>set (i # is). m' ! k = m ! k) \<longleftrightarrow>
        e = m ! i \<and> (\<forall>k\<in>set is. m' ! k = m ! k)"
      using at_i by simp
    ultimately show ?thesis by blast
  qed
  ultimately show ?case using len by blast
qed

lemma update_assignments_flag:
  assumes "update_assignments knn kd ps cs m ind = Inr (m', ind', u')"
    and "length m = length ps"
  shows "length m' = length ps \<and> (u' \<longleftrightarrow> m' = m)"
proof -
  have "length m' = length m \<and> (u' \<longleftrightarrow> (\<forall>i\<in>set [0..<length ps]. m' ! i = m ! i))"
  proof (cases kd)
    case True
    with assms(1) obtain u'' where "assign_kd knn ps cs [0..<length ps] (m, True) = Inr (m', u'')"
      and "u'' = u'"
      by (auto simp: update_assignments_def split: sum.splits)
    with assign_kd_flag [of knn ps cs "[0..<length ps]" m True m' u'] assms(2)
    show ?thesis by simp
  next
    case False
    with assms(1) have "assign_brute ps cs [0..<length ps] (m, ind, True) = Inr (m', ind', u')"
      by (simp add: update_assignments_def)
    with assign_brute_flag [of ps cs "[0..<length ps]" m ind True m' ind' u'] assms(2)
    show ?thesis by simp
  qed
  then have len: "length m' = length m" and fl: "u' \<longleftrightarrow> (\<forall>i<length ps. m' ! i = m ! i)"
    by (simp_all add: Ball_def)
  have "(\<forall>i<length ps. m' ! i = m ! i) \<longleftrightarrow> m' = m"
  proof
    assume "\<forall>i<length ps. m' ! i = m ! i"
    with len assms(2) show "m' = m" by (intro nth_equalityI) simp_all
  next
    assume "m' = m"
    then show "\<forall>i<length ps. m' ! i = m ! i" by simp
  qed
  with len fl assms(2) show ?thesis by simp
qed

lemma fill_buckets_zero_map:
  "a \<le> n \<Longrightarrow> fill_buckets (replicate n 0) [a..<n] (b0 # rest) = Inr ((b0 @ [a..<n]) # rest)"
proof (induction "n - a" arbitrary: a b0)
  case 0
  then show ?case by simp
next
  case (Suc d)
  then have lt: "a < n" and d: "d = n - Suc a" and le: "Suc a \<le> n" by simp_all
  from Suc.hyps(1) [OF d le, of "b0 @ [a]"] lt show ?case
    by (simp add: upt_conv_Cons)
qed

section \<open>The empty-cluster trigger of the specification\<close>

text \<open>
  C1.  The specification expects that on the points \<open>(0,0), (0,0), (0,0)\<close> with the
  explicit centroids \<open>(0,0), (10,10)\<close> and \<open>max_iter = 1\<close> the repair moves one point to
  cluster 1 and the buckets have the sizes 2 and 1.  The code completes without undefined
  behaviour, but the first assignment pass stores cluster 0 for every point, which is what
  the value-initialised index map already holds: the loop is left at the first pass with
  no iteration counted, no repair runs, and the buckets have the sizes 3 and 0.
\<close>

theorem trigger_input_exits_on_first_pass:
  "cluster_from_centroids knn (KMeans [[0, 0], [0, 0], [0, 0]]) [[0, 0], [10, 10]] 1 tol False =
     Inr \<lparr> data_map = [[0, 0], [0, 0], [0, 0]],
           cluster_centroids = [[Fin 0, Fin 0], [Fin 10, Fin 10]],
           cluster_point_indices = [[0, 1, 2], []],
           cluster_index_map = [0, 0, 0],
           iteration_count = 0 \<rparr>"
  by (simp add: model_defs cluster_loop.simps upt_rec Let_def)

section \<open>A requested cluster count of zero\<close>

text \<open>
  C4, as the code has it.  No argument is checked, so a cluster count of zero is not
  rejected.  On the brute-force path the call on an object without points returns with no
  cluster, no bucket and no iteration counted; with at least one point its behaviour is
  undefined: the first assignment pass reads the local \<open>extr_dist_ind\<close> that nothing
  was stored in, and with \<open>max_iter = 0\<close> the bucket of cluster 0 is indexed in an empty
  array of buckets.
\<close>

theorem zero_clusters_not_rejected:
  "cluster_num_clusters rnd knn (KMeans ps) 0 max_iter tol False =
     (if ps = [] then Inr (KMeans [])
      else Inl (if max_iter = 0 then IndexOutOfRange else IndeterminateRead))"
proof -
  let ?s = "(KMeans ps)\<lparr>cluster_centroids := []\<rparr>"
  let ?init = "?s\<lparr>cluster_index_map := resize (length (data_map ?s)) 0 (cluster_index_map ?s),
         iteration_count := 0\<rparr>"
  have unfold: "cluster_num_clusters rnd knn (KMeans ps) 0 max_iter tol False =
      cluster_impl knn max_iter tol False ?s"
    by (simp add: cluster_num_clusters_def)
  show ?thesis
  proof (cases "max_iter = 0")
    case True
    then have loop: "cluster_loop knn max_iter tol False (?init, None) = Inr ?init"
      by (simp add: cluster_loop_done)
    show ?thesis
    proof (cases "ps = []")
      case True
      have "fill_buckets (cluster_index_map ?init) [0..<length (data_map ?s)]
         (resize (length (cluster_centroids ?s)) [] (cluster_point_indices ?init)) = Inr []"
        using True by (simp add: KMeans_def resize_def)
      from cluster_impl_returns [OF loop this] True show ?thesis
        unfolding unfold by (simp add: KMeans_def resize_def)
    next
      case False
      have "fill_buckets (cluster_index_map ?init) [0..<length (data_map ?s)]
         (resize (length (cluster_centroids ?s)) [] (cluster_point_indices ?init))
           = Inl IndexOutOfRange"
        using False by (simp add: KMeans_def resize_def fill_buckets_no_clusters)
      from cluster_impl_fill_fails [OF loop this] False \<open>max_iter = 0\<close> show ?thesis
        unfolding unfold by simp
    qed
  next
    case False
    then have lt: "iteration_count ?init < max_iter" by simp
    show ?thesis
    proof (cases "ps = []")
      case True
      then have "update_assignments knn False (data_map ?init) (cluster_centroids ?init)
          (cluster_index_map ?init) None = Inr ([], None, True)"
        by (simp add: update_assignments_def KMeans_def resize_def)
      from cluster_loop_unchanged [OF lt this]
      have loop: "cluster_loop knn max_iter tol False (?init, None)
          = Inr (?init\<lparr>cluster_index_map := []\<rparr>)" .
      have "fill_buckets (cluster_index_map (?init\<lparr>cluster_index_map := []\<rparr>))
         [0..<length (data_map ?s)]
         (resize (length (cluster_centroids ?s)) []
            (cluster_point_indices (?init\<lparr>cluster_index_map := []\<rparr>))) = Inr []"
        using True by (simp add: KMeans_def resize_def)
      from cluster_impl_returns [OF loop this] True show ?thesis
        unfolding unfold by (simp add: KMeans_def resize_def)
    next
      case ne: False
      then have "update_assignments knn False (data_map ?init) (cluster_centroids ?init)
          (cluster_index_map ?init) None = Inl IndeterminateRead"
        by (simp add: update_assignments_def assign_brute_no_clusters KMeans_def resize_def)
      from cluster_impl_loop_fails [OF cluster_loop_assign_fails [OF lt this]] ne False
      show ?thesis
        unfolding unfold by simp
    qed
  qed
qed

text \<open>The theorem at one point and a positive \<open>max_iter\<close>.\<close>

theorem zero_clusters_not_rejected_witness:
  "cluster_num_clusters (\<lambda>i. 0) (\<lambda>cs p. []) (KMeans [[1, 2]]) 0 100 (Fin 0) False
     = Inl IndeterminateRead"
  using zero_clusters_not_rejected [of "\<lambda>i. 0" "\<lambda>cs p. []" "[[1, 2]]" 100 "Fin 0"] by simp

text \<open>
  Against C4 as stated: the call with a cluster count of zero on an object without points
  does not fail.
\<close>

theorem zero_clusters_no_points_returns:
  "cluster_num_clusters (\<lambda>i. 0) (\<lambda>cs p. []) (KMeans []) 0 100 (Fin 0) False = Inr (KMeans [])"
  by (simp add: cluster_num_clusters_def cluster_impl_def KMeans_def resize_def
        cluster_loop.simps update_assignments_def Let_def)

section \<open>Leaving the loop on an unchanged assignment\<close>

text \<open>
  C9.  When an assignment pass of the loop stores for every point the cluster it already
  had, the flag \<open>assignments_unchanged\<close> is true and the loop ends in this iteration
  with the state it had at the start of the pass: the centroids are the same (no update,
  repair or division ran) and the iteration counter is not incremented.
\<close>

theorem unchanged_pass_ends_loop:
  assumes "iteration_count st < max_iter"
    and "length (cluster_index_map st) = length (data_map st)"
    and "update_assignments knn use_kd_tree (data_map st) (cluster_centroids st)
           (cluster_index_map st) ind = Inr (m1, ind1, unch)"
    and "m1 = cluster_index_map st"
  shows "unch \<and> cluster_loop knn max_iter tol use_kd_tree (st, ind) = Inr st"
proof -
  from update_assignments_flag [OF assms(3) assms(2)] assms(4) have u: unch by simp
  with assms(3) have "update_assignments knn use_kd_tree (data_map st) (cluster_centroids st)
           (cluster_index_map st) ind = Inr (m1, ind1, True)" by simp
  from cluster_loop_unchanged [OF assms(1) this] assms(4) u show ?thesis by simp
qed

theorem unchanged_pass_ends_loop_witness:
  "cluster_loop (\<lambda>cs p. []) 3 (Fin 0) False
     (\<lparr> data_map = [[0], [4]], cluster_centroids = [[Fin 1], [Fin 5]],
        cluster_point_indices = [], cluster_index_map = [0, 1], iteration_count = 2 \<rparr>, Some 1)
   = Inr \<lparr> data_map = [[0], [4]], cluster_centroids = [[Fin 1], [Fin 5]],
        cluster_point_indices = [], cluster_index_map = [0, 1], iteration_count = 2 \<rparr>"
proof -
  let ?st = "\<lparr> data_map = [[0], [4]], cluster_centroids = [[Fin 1], [Fin 5]],
        cluster_point_indices = [], cluster_index_map = [0, 1], iteration_count = 2 \<rparr>"
  have h1: "iteration_count ?st < 3" by simp
  have h2: "length (cluster_index_map ?st) = length (data_map ?st)" by simp
  have h3: "update_assignments (\<lambda>cs p. []) False (data_map ?st) (cluster_centroids ?st)
           (cluster_index_map ?st) (Some 1) = Inr ([0, 1], Some 1, True)"
    by (simp add: model_defs upt_rec)
  have h4: "[0, 1] = cluster_index_map ?st" by simp
  from unchanged_pass_ends_loop [OF h1 h2 h3 h4] show ?thesis by simp
qed

section \<open>The initial centroids and the first call on an object\<close>

lemma fin_vec_col: "fin_vec (col ps i)"
  by (simp add: fin_vec_def col_def list_all_iff)

lemma pick_centroids_ok:
  assumes "length idx = length ps" and "\<forall>x\<in>set idx. x < length ps"
    and "length is \<le> prev" and "prev \<le> length ps"
  shows "\<exists>cs' idx' prev'. pick_centroids rnd ps is (cs, idx, prev) = Inr (cs', idx', prev') \<and>
           length cs' = length cs \<and>
           (\<forall>j<length cs. j \<in> set is \<or> fin_vec (cs ! j) \<longrightarrow> fin_vec (cs' ! j))"
  using assms
proof (induction "is" arbitrary: cs idx prev)
  case Nil
  then show ?case by simp
next
  case (Cons i "is")
  let ?r = "rnd i mod prev"
  let ?idx = "idx[?r := idx ! (prev - 1), prev - 1 := idx ! ?r]"
  let ?cs = "cs[i := col ps (idx ! ?r)]"
  from Cons.prems have pos: "0 < prev" by simp
  then have r: "?r < prev" by simp
  from r Cons.prems(1,4) have r_len: "?r < length idx" by linarith
  from pos Cons.prems(1,4) have p_len: "prev - 1 < length idx" by linarith
  from r_len Cons.prems(2) have x: "idx ! ?r < length ps" by simp
  from p_len Cons.prems(2) have y: "idx ! (prev - 1) < length ps" by simp
  have l: "length ?idx = length ps" using Cons.prems(1) by simp
  have b: "\<forall>x\<in>set ?idx. x < length ps"
  proof
    fix v assume "v \<in> set ?idx"
    then have "v \<in> insert (idx ! ?r) (set (idx[?r := idx ! (prev - 1)]))"
      using set_update_subset_insert [of "idx[?r := idx ! (prev - 1)]" "prev - 1" "idx ! ?r"]
      by blast
    then have "v \<in> insert (idx ! ?r) (insert (idx ! (prev - 1)) (set idx))"
      using set_update_subset_insert [of idx ?r "idx ! (prev - 1)"] by blast
    with x y Cons.prems(2) show "v < length ps" by auto
  qed
  have c: "length is \<le> prev - 1" using Cons.prems(3) by simp
  have d: "prev - 1 \<le> length ps" using Cons.prems(4) by simp
  from Cons.IH [OF l b c d, of ?cs] obtain cs' idx' prev' where
    res: "pick_centroids rnd ps is (?cs, ?idx, prev - 1) = Inr (cs', idx', prev')"
    and len: "length cs' = length ?cs"
    and fin: "\<forall>j<length ?cs. j \<in> set is \<or> fin_vec (?cs ! j) \<longrightarrow> fin_vec (cs' ! j)"
    by blast
  have step: "pick_centroids rnd ps (i # is) (cs, idx, prev) = Inr (cs', idx', prev')"
    using pos r_len x p_len res by (simp add: Let_def)
  have "\<forall>j<length cs. j \<in> set (i # is) \<or> fin_vec (cs ! j) \<longrightarrow> fin_vec (cs' ! j)"
  proof (intro allI impI)
    fix j assume j: "j < length cs" and h: "j \<in> set (i # is) \<or> fin_vec (cs ! j)"
    show "fin_vec (cs' ! j)"
    proof (cases "j = i")
      case True
      with j have "fin_vec (?cs ! j)" by (simp add: fin_vec_col)
      moreover from j have "j < length ?cs" by simp
      ultimately show ?thesis using fin by blast
    next
      case False
      with h have "j \<in> set is \<or> fin_vec (?cs ! j)" by auto
      moreover from j have "j < length ?cs" by simp
      ultimately show ?thesis using fin by blast
    qed
  qed
  with step len show ?case by simp
qed

lemma pick_centroids_initial:
  assumes "k \<le> length ps"
  shows "\<exists>cs idx prev. pick_centroids rnd ps [0..<k] (replicate k [], [0..<length ps], length ps)
            = Inr (cs, idx, prev) \<and> length cs = k \<and> fin_mat cs"
proof -
  from pick_centroids_ok [of "[0..<length ps]" ps "[0..<k]" "length ps" rnd "replicate k []"] assms
  obtain cs idx prev where
    res: "pick_centroids rnd ps [0..<k] (replicate k [], [0..<length ps], length ps)
            = Inr (cs, idx, prev)"
    and len: "length cs = k"
    and fin: "\<forall>j<k. fin_vec (cs ! j)"
    by auto
  from len fin have "fin_mat cs"
    by (auto simp: fin_mat_def list_all_iff in_set_conv_nth)
  with res len show ?thesis by blast
qed

lemma cluster_num_clusters_unfold:
  "\<exists>cs. length cs = min k (length ps) \<and> fin_mat cs \<and>
     (\<forall>max_iter tol kd. cluster_num_clusters rnd knn (KMeans ps) k max_iter tol kd
         = cluster_impl knn max_iter tol kd ((KMeans ps)\<lparr>cluster_centroids := cs\<rparr>))"
proof -
  let ?k = "if length ps < k then length ps else k"
  have "?k \<le> length ps" by simp
  from pick_centroids_initial [OF this, of rnd] obtain cs idx prev where
    res: "pick_centroids rnd ps [0..<?k] (replicate ?k [], [0..<length ps], length ps)
            = Inr (cs, idx, prev)"
    and len: "length cs = ?k" and fin: "fin_mat cs"
    by blast
  have "\<forall>max_iter tol kd. cluster_num_clusters rnd knn (KMeans ps) k max_iter tol kd
         = cluster_impl knn max_iter tol kd ((KMeans ps)\<lparr>cluster_centroids := cs\<rparr>)"
    using res by (simp add: cluster_num_clusters_def KMeans_def Let_def)
  moreover have "length cs = min k (length ps)" using len by (simp add: min_def)
  ultimately show ?thesis using fin by blast
qed

lemma cluster_impl_fresh_returns:
  assumes "cluster_loop knn max_iter tol kd (fresh ps cs, None) = Inr st1"
    and "fill_buckets (cluster_index_map st1) [0..<length ps]
           (resize (length cs) [] (cluster_point_indices st1)) = Inr b"
  shows "cluster_impl knn max_iter tol kd ((KMeans ps)\<lparr>cluster_centroids := cs\<rparr>)
           = Inr (st1\<lparr>cluster_point_indices := b\<rparr>)"
proof -
  let ?s = "(KMeans ps)\<lparr>cluster_centroids := cs\<rparr>"
  have init: "?s\<lparr>cluster_index_map := resize (length (data_map ?s)) 0 (cluster_index_map ?s),
         iteration_count := 0\<rparr> = fresh ps cs"
    by (simp add: KMeans_def fresh_def resize_def)
  have "data_map ?s = ps" "cluster_centroids ?s = cs" by (simp_all add: KMeans_def)
  with cluster_impl_returns [of knn max_iter tol kd ?s st1 b] init assms show ?thesis
    by simp
qed

lemma fill_buckets_all_zero:
  assumes "cs \<noteq> [] \<or> ps = []"
  shows "fill_buckets (replicate (length ps) 0) [0..<length ps] (resize (length cs) [] [])
     = Inr (if cs = [] then [] else [0..<length ps] # replicate (length cs - 1) [])"
proof (cases "cs = []")
  case True
  with assms show ?thesis by (simp add: resize_def)
next
  case False
  then have "resize (length cs) [] [] = ([]::nat list) # replicate (length cs - 1) []"
    by (cases cs) (simp_all add: resize_def)
  with fill_buckets_zero_map [of 0 "length ps" "[]" "replicate (length cs - 1) []"] False
  show ?thesis by simp
qed

lemma cluster_impl_max_iter_zero:
  assumes "cs \<noteq> [] \<or> ps = []"
  shows "cluster_impl knn 0 tol kd ((KMeans ps)\<lparr>cluster_centroids := cs\<rparr>) =
     Inr \<lparr> data_map = ps, cluster_centroids = cs,
           cluster_point_indices = (if cs = [] then [] else [0..<length ps] # replicate (length cs - 1) []),
           cluster_index_map = replicate (length ps) 0, iteration_count = 0 \<rparr>"
proof -
  have loop: "cluster_loop knn 0 tol kd (fresh ps cs, None) = Inr (fresh ps cs)"
    by (simp add: cluster_loop_done)
  have "fill_buckets (cluster_index_map (fresh ps cs)) [0..<length ps]
           (resize (length cs) [] (cluster_point_indices (fresh ps cs)))
        = Inr (if cs = [] then [] else [0..<length ps] # replicate (length cs - 1) [])"
    using fill_buckets_all_zero [OF assms] by (simp add: fresh_def)
  from cluster_impl_fresh_returns [OF loop this] show ?thesis
    by (simp add: fresh_def)
qed

section \<open>A run with no iteration allowed\<close>

text \<open>
  With \<open>max_iter = 0\<close> the loop body does not run, on any object: the iteration count
  is 0, and the buckets are built from the index map as the resize left it.  The call
  returns exactly when every entry of that map is below the number of buckets.
\<close>

lemma max_iter_zero_unfold:
  "cluster_impl knn 0 tol kd st =
     (case fill_buckets (resize (length (data_map st)) 0 (cluster_index_map st))
             [0..<length (data_map st)]
             (resize (length (cluster_centroids st)) [] (cluster_point_indices st)) of
        Inl e \<Rightarrow> Inl e
      | Inr b \<Rightarrow>
          Inr (st\<lparr>cluster_index_map := resize (length (data_map st)) 0 (cluster_index_map st),
                  iteration_count := 0, cluster_point_indices := b\<rparr>))"
  by (simp add: cluster_impl_def cluster_loop_done Let_def)

text \<open>
  On an object as the constructor left it the map holds zeros, so the call completes and
  bucket 0 receives every point index in ascending order, for explicit centroids, of which
  there is at least one, and for a cluster count of at least one.
\<close>

lemma max_iter_zero_new_object:
  "(cs \<noteq> [] \<longrightarrow>
      cluster_from_centroids knn (KMeans ps) cs 0 tol use_kd_tree =
        Inr \<lparr> data_map = ps, cluster_centroids = map (map Fin) cs,
              cluster_point_indices = [0..<length ps] # replicate (length cs - 1) [],
              cluster_index_map = replicate (length ps) 0, iteration_count = 0 \<rparr>) \<and>
   (0 < k \<longrightarrow>
      (\<exists>cents. length cents = min k (length ps) \<and>
         cluster_num_clusters rnd knn (KMeans ps) k 0 tol use_kd_tree =
           Inr \<lparr> data_map = ps, cluster_centroids = cents,
                 cluster_point_indices =
                   (if ps = [] then [] else [0..<length ps] # replicate (length cents - 1) []),
                 cluster_index_map = replicate (length ps) 0, iteration_count = 0 \<rparr>))"
proof (intro conjI impI)
  assume "cs \<noteq> []"
  then have "map (map Fin) cs \<noteq> [] \<or> ps = []" by simp
  from cluster_impl_max_iter_zero [OF this, of knn tol use_kd_tree] \<open>cs \<noteq> []\<close>
  show "cluster_from_centroids knn (KMeans ps) cs 0 tol use_kd_tree =
        Inr \<lparr> data_map = ps, cluster_centroids = map (map Fin) cs,
              cluster_point_indices = [0..<length ps] # replicate (length cs - 1) [],
              cluster_index_map = replicate (length ps) 0, iteration_count = 0 \<rparr>"
    by (simp add: cluster_from_centroids_def)
next
  assume k: "0 < k"
  from cluster_num_clusters_unfold [of k ps rnd knn] obtain cents where
    len: "length cents = min k (length ps)"
    and eq: "cluster_num_clusters rnd knn (KMeans ps) k 0 tol use_kd_tree
         = cluster_impl knn 0 tol use_kd_tree ((KMeans ps)\<lparr>cluster_centroids := cents\<rparr>)"
    by blast
  from len k have ne: "cents \<noteq> [] \<or> ps = []" by (cases ps) auto
  from len k have iff: "cents = [] \<longleftrightarrow> ps = []" by (cases ps; cases cents) auto
  from cluster_impl_max_iter_zero [OF ne, of knn tol use_kd_tree] eq iff
  have "cluster_num_clusters rnd knn (KMeans ps) k 0 tol use_kd_tree =
           Inr \<lparr> data_map = ps, cluster_centroids = cents,
                 cluster_point_indices =
                   (if ps = [] then [] else [0..<length ps] # replicate (length cents - 1) []),
                 cluster_index_map = replicate (length ps) 0, iteration_count = 0 \<rparr>"
    by simp
  with len show "\<exists>cents. length cents = min k (length ps) \<and>
         cluster_num_clusters rnd knn (KMeans ps) k 0 tol use_kd_tree =
           Inr \<lparr> data_map = ps, cluster_centroids = cents,
                 cluster_point_indices =
                   (if ps = [] then [] else [0..<length ps] # replicate (length cents - 1) []),
                 cluster_index_map = replicate (length ps) 0, iteration_count = 0 \<rparr>"
    by blast
qed

text \<open>
  C10.  The specification requires that a call with \<open>max_iter = 0\<close> completes, with
  every point index in bucket 0.  The code does not recompute or clear the index map for
  such a call: on an object that was clustered before, the map still holds the clusters
  of the earlier call.  Here the earlier call, on the points \<open>(0, 0), (5, 0), (9, 0)\<close>
  with these three points as explicit centroids and \<open>max_iter = 1\<close>, left the map
  \<open>0, 1, 2\<close>; the call with the two centroids \<open>(0, 0), (5, 0)\<close> and
  \<open>max_iter = 0\<close> then appends the indices 0 and 1 to the buckets left by the earlier
  call and indexes the two buckets at position 2, outside their range.
\<close>

theorem max_iter_zero_on_reused_object_out_of_range:
  "cluster_from_centroids (\<lambda>cs p. []) (KMeans [[0, 0], [5, 0], [9, 0]])
     [[0, 0], [5, 0], [9, 0]] 1 (Fin 0) False
     = Inr \<lparr> data_map = [[0, 0], [5, 0], [9, 0]],
             cluster_centroids = [[Fin 0, Fin 0], [Fin 5, Fin 0], [Fin 9, Fin 0]],
             cluster_point_indices = [[0], [1], [2]], cluster_index_map = [0, 1, 2],
             iteration_count = 1 \<rparr> \<and>
   cluster_from_centroids (\<lambda>cs p. [])
     \<lparr> data_map = [[0, 0], [5, 0], [9, 0]],
       cluster_centroids = [[Fin 0, Fin 0], [Fin 5, Fin 0], [Fin 9, Fin 0]],
       cluster_point_indices = [[0], [1], [2]], cluster_index_map = [0, 1, 2],
       iteration_count = 1 \<rparr> [[0, 0], [5, 0]] 0 (Fin 0) False
     = Inl IndexOutOfRange"
  by (simp add: model_defs cluster_loop.simps upt_rec Let_def)

section \<open>A first pass that stores what the index map already holds\<close>

lemma fill_buckets_all_zero_any:
  assumes "0 < K \<or> N = 0"
  shows "fill_buckets (replicate N 0) [0..<N] (replicate K [])
     = Inr (if K = 0 then [] else [0..<N] # replicate (K - 1) [])"
proof (cases "K = 0")
  case True
  with assms show ?thesis by simp
next
  case False
  then have "replicate K [] = ([]::nat list) # replicate (K - 1) []"
    by (cases K) simp_all
  with fill_buckets_zero_map [of 0 N "[]" "replicate (K - 1) []"] False
  show ?thesis by simp
qed

text \<open>
  C2, as the code has it.  \<open>cluster_index_map_.resize(num_points)\<close> value-initialises
  only the entries it adds.  On an object as the constructor left it the map before the
  loop is all zeros; on an object that was clustered before (on the same points) it is
  the map of the earlier call.  Whenever the first assignment pass (on either path) stores
  for every point the cluster that this map already holds, the flag
  \<open>assignments_unchanged\<close> is true, the loop is left right after that pass, and a
  call that returns reports the iteration count 0 and the initial centroids: neither the
  centroid update nor the repair has run.  On an object as the constructor left it this
  is the case of a first pass that stores cluster 0 everywhere, and the call returns with
  every point index in bucket 0 (the centroid matrix is not empty unless there is no
  point at all).
\<close>

theorem first_pass_keeping_the_map_exits:
  assumes "0 < max_iter"
    and "update_assignments knn use_kd_tree (data_map st) (cluster_centroids st)
           (resize (length (data_map st)) 0 (cluster_index_map st)) None = Inr (m1, ind1, unch)"
    and "m1 = resize (length (data_map st)) 0 (cluster_index_map st)"
  shows "unch \<and>
         cluster_loop knn max_iter tol use_kd_tree
           (st\<lparr>cluster_index_map := m1, iteration_count := 0\<rparr>, None)
           = Inr (st\<lparr>cluster_index_map := m1, iteration_count := 0\<rparr>) \<and>
         (\<forall>st'. cluster_impl knn max_iter tol use_kd_tree st = Inr st' \<longrightarrow>
            iteration_count st' = 0 \<and> cluster_centroids st' = cluster_centroids st \<and>
            cluster_index_map st' = m1) \<and>
         (cluster_index_map st = [] \<longrightarrow> m1 = replicate (length (data_map st)) 0) \<and>
         (length (cluster_index_map st) = length (data_map st) \<longrightarrow> m1 = cluster_index_map st) \<and>
         (cluster_index_map st = [] \<and> cluster_point_indices st = [] \<and>
          (cluster_centroids st \<noteq> [] \<or> data_map st = []) \<longrightarrow>
            cluster_impl knn max_iter tol use_kd_tree st =
              Inr (st\<lparr>cluster_point_indices :=
                        (if cluster_centroids st = [] then []
                         else [0..<length (data_map st)] #
                              replicate (length (cluster_centroids st) - 1) []),
                      cluster_index_map := replicate (length (data_map st)) 0,
                      iteration_count := 0\<rparr>))"
proof -
  let ?N = "length (data_map st)" and ?K = "length (cluster_centroids st)"
  let ?init = "st\<lparr>cluster_index_map := resize ?N 0 (cluster_index_map st), iteration_count := 0\<rparr>"
  have lm: "length (resize ?N 0 (cluster_index_map st)) = length (data_map st)"
    by (rule length_resize)
  from update_assignments_flag [OF assms(2) lm] assms(3) have u: unch by simp
  have lt: "iteration_count ?init < max_iter" using assms(1) by simp
  have pass: "update_assignments knn use_kd_tree (data_map ?init) (cluster_centroids ?init)
      (cluster_index_map ?init) None = Inr (m1, ind1, True)"
    using assms(2) u by simp
  from cluster_loop_unchanged [OF lt pass] assms(3)
  have loop: "cluster_loop knn max_iter tol use_kd_tree (?init, None) = Inr ?init"
    by simp
  have ret: "\<forall>st'. cluster_impl knn max_iter tol use_kd_tree st = Inr st' \<longrightarrow>
            iteration_count st' = 0 \<and> cluster_centroids st' = cluster_centroids st \<and>
            cluster_index_map st' = m1"
  proof (intro allI impI)
    fix st' assume "cluster_impl knn max_iter tol use_kd_tree st = Inr st'"
    from cluster_impl_cases [OF this] loop obtain b where "st' = ?init\<lparr>cluster_point_indices := b\<rparr>"
      by auto
    with assms(3) show "iteration_count st' = 0 \<and> cluster_centroids st' = cluster_centroids st \<and>
            cluster_index_map st' = m1" by simp
  qed
  have fresh_map: "cluster_index_map st = [] \<longrightarrow> m1 = replicate ?N 0"
    using assms(3) by (simp add: resize_empty)
  have kept: "length (cluster_index_map st) = ?N \<longrightarrow> m1 = cluster_index_map st"
    using assms(3) by (simp add: resize_same_length)
  have first: "cluster_index_map st = [] \<and> cluster_point_indices st = [] \<and>
          (cluster_centroids st \<noteq> [] \<or> data_map st = []) \<longrightarrow>
            cluster_impl knn max_iter tol use_kd_tree st =
              Inr (st\<lparr>cluster_point_indices :=
                        (if cluster_centroids st = [] then []
                         else [0..<?N] # replicate (?K - 1) []),
                      cluster_index_map := replicate ?N 0,
                      iteration_count := 0\<rparr>)"
  proof
    assume h: "cluster_index_map st = [] \<and> cluster_point_indices st = [] \<and>
          (cluster_centroids st \<noteq> [] \<or> data_map st = [])"
    then have z: "resize ?N 0 (cluster_index_map st) = replicate ?N 0"
      and e: "resize ?K [] (cluster_point_indices ?init) = replicate ?K []"
      and k: "0 < ?K \<or> ?N = 0"
      by (auto simp: resize_empty)
    have "fill_buckets (cluster_index_map ?init) [0..<?N]
        (resize ?K [] (cluster_point_indices ?init))
        = Inr (if ?K = 0 then [] else [0..<?N] # replicate (?K - 1) [])"
      using fill_buckets_all_zero_any [OF k] z e by simp
    from cluster_impl_returns [OF loop this] z
    show "cluster_impl knn max_iter tol use_kd_tree st =
              Inr (st\<lparr>cluster_point_indices :=
                        (if cluster_centroids st = [] then []
                         else [0..<?N] # replicate (?K - 1) []),
                      cluster_index_map := replicate ?N 0,
                      iteration_count := 0\<rparr>)"
      by simp
  qed
  from loop assms(3) have loop': "cluster_loop knn max_iter tol use_kd_tree
           (st\<lparr>cluster_index_map := m1, iteration_count := 0\<rparr>, None)
           = Inr (st\<lparr>cluster_index_map := m1, iteration_count := 0\<rparr>)" by simp
  from u loop' ret fresh_map kept first show ?thesis by blast
qed

text \<open>
  The theorem on an object that was clustered before, whose map \<open>0, 1\<close> the first pass
  stores again, and on a new object, whose first pass stores cluster 0 for each of the
  three points.
\<close>

theorem first_pass_keeping_the_map_exits_witness:
  "cluster_loop (\<lambda>cs p. []) 7 (Fin 1) False
     (\<lparr> data_map = [[0], [4]], cluster_centroids = [[Fin 1], [Fin 5]],
        cluster_point_indices = [[0], [1]], cluster_index_map = [0, 1], iteration_count = 0 \<rparr>, None)
   = Inr \<lparr> data_map = [[0], [4]], cluster_centroids = [[Fin 1], [Fin 5]],
        cluster_point_indices = [[0], [1]], cluster_index_map = [0, 1], iteration_count = 0 \<rparr> \<and>
   cluster_impl (\<lambda>cs p. []) 7 (Fin 1) False
      ((KMeans [[0, 0], [1, 0], [0, 1]])\<lparr>cluster_centroids := [[Fin 0, Fin 0], [Fin 10, Fin 10]]\<rparr>) =
     Inr \<lparr> data_map = [[0, 0], [1, 0], [0, 1]],
           cluster_centroids = [[Fin 0, Fin 0], [Fin 10, Fin 10]],
           cluster_point_indices = [[0, 1, 2], []],
           cluster_index_map = [0, 0, 0], iteration_count = 0 \<rparr>"
proof -
  let ?old = "\<lparr> data_map = [[0], [4]], cluster_centroids = [[Fin 1], [Fin 5]],
        cluster_point_indices = [[0], [1]], cluster_index_map = [0, 1], iteration_count = 3 \<rparr>"
  have h1: "0 < (7::nat)" by simp
  have h2: "update_assignments (\<lambda>cs p. []) False (data_map ?old) (cluster_centroids ?old)
           (resize (length (data_map ?old)) 0 (cluster_index_map ?old)) None
           = Inr ([0, 1], Some 1, True)"
    by (simp add: model_defs upt_rec)
  have h3: "[0, 1] = resize (length (data_map ?old)) 0 (cluster_index_map ?old)"
    by (simp add: resize_def)
  from first_pass_keeping_the_map_exits [OF h1 h2 h3, of "Fin 1"]
  have reused: "cluster_loop (\<lambda>cs p. []) 7 (Fin 1) False
     (\<lparr> data_map = [[0], [4]], cluster_centroids = [[Fin 1], [Fin 5]],
        cluster_point_indices = [[0], [1]], cluster_index_map = [0, 1], iteration_count = 0 \<rparr>, None)
   = Inr \<lparr> data_map = [[0], [4]], cluster_centroids = [[Fin 1], [Fin 5]],
        cluster_point_indices = [[0], [1]], cluster_index_map = [0, 1], iteration_count = 0 \<rparr>"
    by simp
  let ?new = "(KMeans [[0, 0], [1, 0], [0, 1]])\<lparr>cluster_centroids := [[Fin 0, Fin 0], [Fin 10, Fin 10]]\<rparr>"
  have g2: "update_assignments (\<lambda>cs p. []) False (data_map ?new) (cluster_centroids ?new)
           (resize (length (data_map ?new)) 0 (cluster_index_map ?new)) None
           = Inr ([0, 0, 0], Some 0, True)"
    by (simp add: model_defs upt_rec)
  have g3: "[0, 0, 0] = resize (length (data_map ?new)) 0 (cluster_index_map ?new)"
    by (simp add: resize_def KMeans_def)
  have g4: "cluster_index_map ?new = [] \<and> cluster_point_indices ?new = [] \<and>
          (cluster_centroids ?new \<noteq> [] \<or> data_map ?new = [])"
    by (simp add: KMeans_def)
  from first_pass_keeping_the_map_exits [OF h1 g2 g3, of "Fin 1"] g4
  have "cluster_impl (\<lambda>cs p. []) 7 (Fin 1) False ?new =
      Inr (?new\<lparr>cluster_point_indices :=
                        (if cluster_centroids ?new = [] then []
                         else [0..<length (data_map ?new)] #
                              replicate (length (cluster_centroids ?new) - 1) []),
                      cluster_index_map := replicate (length (data_map ?new)) 0,
                      iteration_count := 0\<rparr>)"
    by blast
  then have "cluster_impl (\<lambda>cs p. []) 7 (Fin 1) False ?new =
     Inr \<lparr> data_map = [[0, 0], [1, 0], [0, 1]],
           cluster_centroids = [[Fin 0, Fin 0], [Fin 10, Fin 10]],
           cluster_point_indices = [[0, 1, 2], []],
           cluster_index_map = [0, 0, 0], iteration_count = 0 \<rparr>"
    by (simp add: KMeans_def upt_rec)
  with reused show ?thesis by (simp only:)
qed

text \<open>
  Against C2 as stated.  The first call leaves the map \<open>0, 1, 1\<close>.  The first pass of
  the second call, on the centroids 1 and 10, stores cluster 0 for every point, yet it
  clears the flag: the update and the repair run, one iteration is counted and the
  centroids returned are not the initial ones.
\<close>

theorem reused_object_first_pass_all_zero_runs_the_repair:
  "cluster_from_centroids (\<lambda>cs p. []) (KMeans [[0], [1], [2]]) [[10], [1]] 1 (Fin 0) False
     = Inr \<lparr> data_map = [[0], [1], [2]], cluster_centroids = [[Fin 0], [Fin (3 / 2)]],
             cluster_point_indices = [[0], [1, 2]], cluster_index_map = [0, 1, 1],
             iteration_count = 1 \<rparr> \<and>
   update_assignments (\<lambda>cs p. []) False [[0], [1], [2]] [[Fin 1], [Fin 10]] [0, 1, 1] None
     = Inr ([0, 0, 0], Some 0, False) \<and>
   cluster_from_centroids (\<lambda>cs p. [])
     \<lparr> data_map = [[0], [1], [2]], cluster_centroids = [[Fin 0], [Fin (3 / 2)]],
       cluster_point_indices = [[0], [1, 2]], cluster_index_map = [0, 1, 1],
       iteration_count = 1 \<rparr> [[1], [10]] 1 (Fin 0) False
     = Inr \<lparr> data_map = [[0], [1], [2]], cluster_centroids = [[Fin (3 / 2)], [Fin 0]],
             cluster_point_indices = [[0, 1, 2], [1, 2, 0]], cluster_index_map = [1, 0, 0],
             iteration_count = 1 \<rparr>"
  by (simp add: model_defs cluster_loop.simps upt_rec Let_def)

section \<open>Arithmetic on finite scalars\<close>

lemma is_fin_iff: "is_fin a \<longleftrightarrow> (\<exists>r. a = Fin r)"
  by (cases a) simp_all

lemma fin_vec_iff: "fin_vec v \<longleftrightarrow> (\<forall>x\<in>set v. is_fin x)"
  by (simp add: fin_vec_def list_all_iff)

lemma fin_mat_nth: "fin_mat cs \<Longrightarrow> j < length cs \<Longrightarrow> fin_vec (cs ! j)"
  by (simp add: fin_mat_def list_all_iff)

lemma fin_matI: "(\<And>j. j < length cs \<Longrightarrow> fin_vec (cs ! j)) \<Longrightarrow> fin_mat cs"
  by (auto simp: fin_mat_def list_all_iff in_set_conv_nth)

lemma is_fin_add: "is_fin a \<Longrightarrow> is_fin b \<Longrightarrow> is_fin (s_add a b)"
  by (auto simp: is_fin_iff)

lemma is_fin_sub: "is_fin a \<Longrightarrow> is_fin b \<Longrightarrow> is_fin (s_sub a b)"
  by (auto simp: is_fin_iff s_sub_def)

lemma is_fin_mul: "is_fin a \<Longrightarrow> is_fin b \<Longrightarrow> is_fin (s_mul a b)"
  by (auto simp: is_fin_iff)

lemma fin_vec_map2:
  assumes "\<And>a b. is_fin a \<Longrightarrow> is_fin b \<Longrightarrow> is_fin (f a b)" and "fin_vec u" and "fin_vec v"
  shows "fin_vec (map2 f u v)"
  unfolding fin_vec_iff
proof
  fix x assume "x \<in> set (map2 f u v)"
  then obtain a b where "(a, b) \<in> set (zip u v)" and x: "x = f a b" by auto
  then have "a \<in> set u" "b \<in> set v" by (auto dest: set_zip_leftD set_zip_rightD)
  with assms x show "is_fin x" by (simp add: fin_vec_iff)
qed

lemma fin_vec_add: "fin_vec u \<Longrightarrow> fin_vec v \<Longrightarrow> fin_vec (v_add u v)"
  unfolding v_add_def by (rule fin_vec_map2) (simp_all add: is_fin_add)

lemma fin_vec_sub: "fin_vec u \<Longrightarrow> fin_vec v \<Longrightarrow> fin_vec (v_sub u v)"
  unfolding v_sub_def by (rule fin_vec_map2) (simp_all add: is_fin_sub)

lemma fin_vec_scale: "fin_vec u \<Longrightarrow> is_fin s \<Longrightarrow> fin_vec (v_scale u s)"
  by (simp add: fin_vec_iff v_scale_def is_fin_mul)

lemma foldl_add_squares:
  "\<forall>x\<in>set v. is_fin x \<Longrightarrow> 0 \<le> a \<Longrightarrow>
   \<exists>r\<ge>0. foldl s_add (Fin a) (map (\<lambda>x. s_mul x x) v) = Fin r"
proof (induction v arbitrary: a)
  case Nil
  then show ?case by simp
next
  case (Cons x v)
  from Cons.prems obtain b where x: "x = Fin b" by (auto simp: is_fin_iff)
  have "0 \<le> a + b * b" using Cons.prems(2) by simp
  with Cons.IH [of "a + b * b"] Cons.prems(1) x show ?case by simp
qed

lemma squaredNorm_fin: "fin_vec v \<Longrightarrow> \<exists>r\<ge>0. squaredNorm v = Fin r"
  unfolding squaredNorm_def fin_vec_iff by (rule foldl_add_squares) simp_all

lemma sq_dist_fin: "fin_vec c \<Longrightarrow> fin_vec p \<Longrightarrow> \<exists>r\<ge>0. sq_dist c p = Fin r"
  unfolding sq_dist_def by (intro squaredNorm_fin fin_vec_sub)

section \<open>The brute-force assignment pass\<close>

lemma s_less_irrefl: "\<not> s_less a a"
  by (cases a) simp_all

lemma s_less_asym: "s_less a b \<Longrightarrow> \<not> s_less b a"
  by (cases a; cases b) simp_all

lemma s_less_below:
  "is_fin c \<Longrightarrow> is_fin b \<Longrightarrow> s_less a b \<Longrightarrow> \<not> s_less c b \<Longrightarrow> s_less a c"
  by (cases a; cases b; cases c) simp_all

lemma nearest_step_unfold:
  "nearest_step cs p j acc =
     (if s_less (sq_dist (cs ! j) p) (fst acc) then (sq_dist (cs ! j) p, Some j) else acc)"
  by (simp add: nearest_step_def Let_def)

lemma nearest_prefix:
  assumes fin: "\<forall>j<length cs. is_fin (sq_dist (cs ! j) p)"
  shows "0 < n \<Longrightarrow> n \<le> length cs \<Longrightarrow>
    \<exists>e<n. fold (nearest_step cs p) [0..<n] (PInf, ind) = (sq_dist (cs ! e) p, Some e) \<and>
      (\<forall>j<n. \<not> s_less (sq_dist (cs ! j) p) (sq_dist (cs ! e) p)) \<and>
      (\<forall>j<e. s_less (sq_dist (cs ! e) p) (sq_dist (cs ! j) p))"
proof (induction n)
  case 0
  then show ?case by simp
next
  case (Suc n)
  let ?d = "\<lambda>j. sq_dist (cs ! j) p"
  show ?case
  proof (cases "n = 0")
    case True
    from Suc.prems(2) have "0 < length cs" by linarith
    with fin have "is_fin (?d 0)" by blast
    then obtain r where "?d 0 = Fin r" by (auto simp: is_fin_iff)
    with True show ?thesis
      by (simp add: nearest_step_unfold s_less_irrefl)
  next
    case False
    with Suc obtain e where e: "e < n"
      and res: "fold (nearest_step cs p) [0..<n] (PInf, ind) = (?d e, Some e)"
      and mn: "\<forall>j<n. \<not> s_less (?d j) (?d e)"
      and lo: "\<forall>j<e. s_less (?d e) (?d j)"
      by auto
    have step: "fold (nearest_step cs p) [0..<Suc n] (PInf, ind)
        = (if s_less (?d n) (?d e) then (?d n, Some n) else (?d e, Some e))"
      using res by (simp add: nearest_step_unfold)
    show ?thesis
    proof (cases "s_less (?d n) (?d e)")
      case True
      have fe: "is_fin (?d e)" using fin e Suc.prems by simp
      have lower: "\<forall>j<n. s_less (?d n) (?d j)"
      proof (intro allI impI)
        fix j assume j: "j < n"
        then have "is_fin (?d j)" using fin Suc.prems by simp
        from s_less_below [OF this fe True] mn j show "s_less (?d n) (?d j)" by simp
      qed
      have "\<forall>j<Suc n. \<not> s_less (?d j) (?d n)"
      proof (intro allI impI)
        fix j assume "j < Suc n"
        then consider "j < n" | "j = n" by linarith
        then show "\<not> s_less (?d j) (?d n)"
        proof cases
          case 1
          with lower show ?thesis by (simp add: s_less_asym)
        next
          case 2
          then show ?thesis by (simp add: s_less_irrefl)
        qed
      qed
      with lower step True show ?thesis
        by (intro exI [of _ n]) simp
    next
      case F: False
      have "\<forall>j<Suc n. \<not> s_less (?d j) (?d e)"
        using mn F by (simp add: less_Suc_eq)
      with step F e lo show ?thesis
        by (intro exI [of _ e]) simp
    qed
  qed
qed

lemma nearest_is_nearest:
  assumes "fin_mat cs" and "cs \<noteq> []" and "fin_vec p"
  shows "\<exists>e. snd (nearest cs p ind) = Some e \<and> is_nearest cs p e"
proof -
  have fin: "\<forall>j<length cs. is_fin (sq_dist (cs ! j) p)"
  proof (intro allI impI)
    fix j assume "j < length cs"
    with assms(1) have "fin_vec (cs ! j)" by (rule fin_mat_nth)
    from sq_dist_fin [OF this assms(3)] show "is_fin (sq_dist (cs ! j) p)"
      by (auto simp: is_fin_iff)
  qed
  from assms(2) have "0 < length cs" by simp
  from nearest_prefix [OF fin this, of ind] show ?thesis
    by (auto simp: nearest_def is_nearest_def)
qed

section \<open>The brute-force assignment pass for any evaluated distance\<close>

text \<open>
  The pass over the exact squared distance is the pass over the evaluated distance
  \<open>metric\<close>, taken at \<open>sq_dist\<close>.
\<close>

lemma nearest_step_is_metric_instance: "nearest_step cs p = nearest_step_metric sq_dist cs p"
  by (intro ext) (simp add: nearest_step_def nearest_step_metric_def)

lemma nearest_is_metric_instance: "nearest cs p ind = nearest_metric sq_dist cs p ind"
  by (simp add: nearest_def nearest_metric_def nearest_step_is_metric_instance)

lemma assign_brute_is_metric_instance:
  "assign_brute ps cs is s = assign_brute_metric sq_dist ps cs is s"
proof (induction "is" arbitrary: s)
  case Nil
  then show ?case by simp
next
  case (Cons i "is")
  obtain m ind u where s: "s = (m, ind, u)" by (cases s) auto
  show ?case unfolding s
    by (simp add: nearest_is_metric_instance Cons.IH split: option.splits)
qed

lemma not_below_PInf: "\<not> s_less x PInf \<longleftrightarrow> x = PInf \<or> x = NaN"
  by (cases x) simp_all

lemma s_less_trans: "s_less a b \<Longrightarrow> s_less b c \<Longrightarrow> s_less a c"
  by (cases a; cases b; cases c) simp_all

lemma s_less_beyond: "s_less a b \<Longrightarrow> \<not> s_less c b \<Longrightarrow> c \<noteq> NaN \<Longrightarrow> s_less a c"
  by (cases a; cases b; cases c) simp_all

lemma nearest_step_metric_unfold:
  "nearest_step_metric metric cs p j acc =
     (if s_less (metric (cs ! j) p) (fst acc) then (metric (cs ! j) p, Some j) else acc)"
  by (simp add: nearest_step_metric_def Let_def)

lemma nearest_metric_prefix:
  "(\<not> (\<exists>j<n. s_less (metric (cs ! j) p) PInf) \<and>
      fold (nearest_step_metric metric cs p) [0..<n] (PInf, ind) = (PInf, ind)) \<or>
   (\<exists>e<n. fold (nearest_step_metric metric cs p) [0..<n] (PInf, ind) = (metric (cs ! e) p, Some e) \<and>
      s_less (metric (cs ! e) p) PInf \<and>
      (\<forall>j<n. \<not> s_less (metric (cs ! j) p) (metric (cs ! e) p)) \<and>
      (\<forall>j<e. metric (cs ! j) p = NaN \<or> s_less (metric (cs ! e) p) (metric (cs ! j) p)))"
proof (induction n)
  case 0
  then show ?case by simp
next
  case (Suc n)
  let ?d = "\<lambda>j. metric (cs ! j) p"
  let ?f = "\<lambda>k. fold (nearest_step_metric metric cs p) [0..<k] (PInf, ind)"
  from Suc consider
    (none) "\<not> (\<exists>j<n. s_less (?d j) PInf)" "?f n = (PInf, ind)"
  | (some) e where "e < n" "?f n = (?d e, Some e)" "s_less (?d e) PInf"
      "\<forall>j<n. \<not> s_less (?d j) (?d e)" "\<forall>j<e. ?d j = NaN \<or> s_less (?d e) (?d j)"
    by blast
  then show ?case
  proof cases
    case none
    show ?thesis
    proof (cases "s_less (?d n) PInf")
      case True
      have early: "\<forall>j<n. ?d j = PInf \<or> ?d j = NaN"
        using none(1) by (simp add: not_below_PInf)
      have a: "?f (Suc n) = (?d n, Some n)"
        using none(2) True by (simp add: nearest_step_metric_unfold)
      have b: "\<forall>j<Suc n. \<not> s_less (?d j) (?d n)"
      proof (intro allI impI)
        fix j assume "j < Suc n"
        then consider "j < n" | "j = n" by linarith
        then show "\<not> s_less (?d j) (?d n)"
        proof cases
          case 1
          with early have "?d j = PInf \<or> ?d j = NaN" by simp
          then show ?thesis by auto
        next
          case 2
          then show ?thesis by (simp add: s_less_irrefl)
        qed
      qed
      have c: "\<forall>j<n. ?d j = NaN \<or> s_less (?d n) (?d j)"
        using early True by auto
      from a b c True show ?thesis
        by (intro disjI2 exI [of _ n]) simp
    next
      case False
      then have "\<not> (\<exists>j<Suc n. s_less (?d j) PInf)"
        using none(1) by (auto simp: less_Suc_eq)
      moreover have "?f (Suc n) = (PInf, ind)"
        using none(2) False by (simp add: nearest_step_metric_unfold)
      ultimately show ?thesis by blast
    qed
  next
    case some
    have step: "?f (Suc n) = (if s_less (?d n) (?d e) then (?d n, Some n) else (?d e, Some e))"
      using some(2) by (simp add: nearest_step_metric_unfold)
    show ?thesis
    proof (cases "s_less (?d n) (?d e)")
      case True
      have a: "s_less (?d n) PInf" using True some(3) by (rule s_less_trans)
      have b: "\<forall>j<Suc n. \<not> s_less (?d j) (?d n)"
      proof (intro allI impI)
        fix j assume "j < Suc n"
        then consider "j < n" | "j = n" by linarith
        then show "\<not> s_less (?d j) (?d n)"
        proof cases
          case 1
          show ?thesis
          proof
            assume "s_less (?d j) (?d n)"
            from s_less_trans [OF this True] some(4) 1 show False by simp
          qed
        next
          case 2
          then show ?thesis by (simp add: s_less_irrefl)
        qed
      qed
      have c: "\<forall>j<n. ?d j = NaN \<or> s_less (?d n) (?d j)"
      proof (intro allI impI)
        fix j assume j: "j < n"
        show "?d j = NaN \<or> s_less (?d n) (?d j)"
        proof (cases "?d j = NaN")
          case False
          from some(4) j have "\<not> s_less (?d j) (?d e)" by simp
          from s_less_beyond [OF True this False] show ?thesis by simp
        qed simp
      qed
      from step True a b c show ?thesis
        by (intro disjI2 exI [of _ n]) simp
    next
      case False
      have "\<forall>j<Suc n. \<not> s_less (?d j) (?d e)"
        using some(4) False by (simp add: less_Suc_eq)
      with step False some show ?thesis
        by (intro disjI2 exI [of _ e]) simp
    qed
  qed
qed

lemma nearest_metric_cases:
  "(\<not> within_reach metric cs p \<and> snd (nearest_metric metric cs p ind) = ind) \<or>
   (within_reach metric cs p \<and>
      (\<exists>e. snd (nearest_metric metric cs p ind) = Some e \<and> nearest_by metric cs p e))"
  using nearest_metric_prefix [of "length cs" metric cs p ind]
  by (auto simp: within_reach_def nearest_metric_def nearest_by_def)

lemma assign_brute_metric_flag:
  "assign_brute_metric metric ps cs is (m, ind, u) = Inr (m', ind', u') \<Longrightarrow> distinct is \<Longrightarrow>
   \<forall>i\<in>set is. i < length m \<Longrightarrow>
   length m' = length m \<and> (\<forall>j. j \<notin> set is \<longrightarrow> m' ! j = m ! j) \<and>
   (u' \<longleftrightarrow> u \<and> (\<forall>i\<in>set is. m' ! i = m ! i))"
proof (induction "is" arbitrary: m ind u)
  case Nil
  then show ?case by simp
next
  case (Cons i "is")
  from Cons.prems(1) obtain e where
    e: "snd (nearest_metric metric cs (col ps i) ind) = Some e" and
    rest: "assign_brute_metric metric ps cs is (m[i := e], Some e, u \<and> m ! i = e) = Inr (m', ind', u')"
    by (auto split: option.splits)
  from Cons.prems have d: "distinct is" "i \<notin> set is" "i < length m"
    and b: "\<forall>k\<in>set is. k < length (m[i := e])" by simp_all
  from Cons.IH [OF rest d(1) b]
  have len: "length m' = length m"
    and out: "\<forall>j. j \<notin> set is \<longrightarrow> m' ! j = m[i := e] ! j"
    and fl: "u' \<longleftrightarrow> (u \<and> m ! i = e) \<and> (\<forall>k\<in>set is. m' ! k = m[i := e] ! k)"
    by simp_all
  from out d have at_i: "m' ! i = e" by simp
  have "\<forall>j. j \<notin> set (i # is) \<longrightarrow> m' ! j = m ! j"
    using out by auto
  moreover have "u' \<longleftrightarrow> u \<and> (\<forall>k\<in>set (i # is). m' ! k = m ! k)"
  proof -
    have same: "\<forall>k\<in>set is. m[i := e] ! k = m ! k"
      using d(2) by (metis nth_list_update_neq)
    from fl same have "u' \<longleftrightarrow> (u \<and> m ! i = e) \<and> (\<forall>k\<in>set is. m' ! k = m ! k)"
      by simp
    moreover have "(\<forall>k\<in>set (i # is). m' ! k = m ! k) \<longleftrightarrow>
        e = m ! i \<and> (\<forall>k\<in>set is. m' ! k = m ! k)"
      using at_i by simp
    ultimately show ?thesis by blast
  qed
  ultimately show ?case using len by blast
qed

lemma assign_brute_metric_nearest:
  "assign_brute_metric metric ps cs is (m, ind, u) = Inr (m', ind', u') \<Longrightarrow> distinct is \<Longrightarrow>
   \<forall>i\<in>set is. i < length m \<Longrightarrow>
   \<forall>i\<in>set is. within_reach metric cs (col ps i) \<longrightarrow> nearest_by metric cs (col ps i) (m' ! i)"
proof (induction "is" arbitrary: m ind u)
  case Nil
  then show ?case by simp
next
  case (Cons i "is")
  from Cons.prems(1) obtain e where
    e: "snd (nearest_metric metric cs (col ps i) ind) = Some e" and
    rest: "assign_brute_metric metric ps cs is (m[i := e], Some e, u \<and> m ! i = e) = Inr (m', ind', u')"
    by (auto split: option.splits)
  from Cons.prems have d: "distinct is" and ni: "i \<notin> set is" and il: "i < length m"
    and b: "\<forall>k\<in>set is. k < length (m[i := e])" by simp_all
  from Cons.IH [OF rest d b]
  have tl: "\<forall>k\<in>set is. within_reach metric cs (col ps k) \<longrightarrow> nearest_by metric cs (col ps k) (m' ! k)" .
  from assign_brute_metric_flag [OF rest d b] ni il have at_i: "m' ! i = e" by simp
  have "within_reach metric cs (col ps i) \<longrightarrow> nearest_by metric cs (col ps i) e"
    using nearest_metric_cases [of metric cs "col ps i" ind] e by auto
  with tl at_i show ?case by simp
qed

lemma assign_brute_metric_returns:
  "\<forall>i\<in>set is. within_reach metric cs (col ps i) \<Longrightarrow>
   \<exists>m' ind' u'. assign_brute_metric metric ps cs is (m, ind, u) = Inr (m', ind', u')"
proof (induction "is" arbitrary: m ind u)
  case Nil
  then show ?case by simp
next
  case (Cons i "is")
  from Cons.prems have "within_reach metric cs (col ps i)" by simp
  with nearest_metric_cases [of metric cs "col ps i" ind] obtain e where
    e: "snd (nearest_metric metric cs (col ps i) ind) = Some e" by auto
  from Cons.prems have "\<forall>k\<in>set is. within_reach metric cs (col ps k)" by simp
  from Cons.IH [OF this, of "m[i := e]" "Some e" "u \<and> m ! i = e"] e show ?case by simp
qed

text \<open>
  What the scan does, whatever the distances are.  A pass that returns stores, for every
  point within reach, its nearest cluster, the lowest index winning a tie, and it clears
  \<open>assignments_unchanged\<close> if and only if the cluster stored for some point differs
  from the one stored before; and the pass returns when every point is within reach.  For
  a point that is not within reach (every evaluated distance is plus infinity or not a
  number) no comparison \<open>dist < extr_dist\<close> succeeds, nothing is stored in
  \<open>extr_dist_ind\<close>, and the map receives whatever that local holds.
\<close>

lemma brute_force_pass_any_metric:
  assumes "length m = length ps"
  shows "(\<forall>m' ind' unch.
            assign_brute_metric metric ps cs [0..<length ps] (m, ind, True) = Inr (m', ind', unch) \<longrightarrow>
            length m' = length ps \<and>
            (\<forall>i<length ps. within_reach metric cs (col ps i) \<longrightarrow>
                nearest_by metric cs (col ps i) (m' ! i)) \<and>
            (\<not> unch \<longleftrightarrow> (\<exists>i<length ps. m' ! i \<noteq> m ! i))) \<and>
         ((\<forall>i<length ps. within_reach metric cs (col ps i)) \<longrightarrow>
            (\<exists>m' ind' unch.
               assign_brute_metric metric ps cs [0..<length ps] (m, ind, True) = Inr (m', ind', unch)))"
proof (intro conjI allI impI)
  fix m' ind' unch
  assume run: "assign_brute_metric metric ps cs [0..<length ps] (m, ind, True) = Inr (m', ind', unch)"
  have d: "distinct [0..<length ps]" and b: "\<forall>i\<in>set [0..<length ps]. i < length m"
    using assms by simp_all
  from assign_brute_metric_flag [OF run d b] assms
  show "length m' = length ps" and "\<not> unch \<longleftrightarrow> (\<exists>i<length ps. m' ! i \<noteq> m ! i)"
    by (simp_all add: Ball_def)
  from assign_brute_metric_nearest [OF run d b]
  show "\<And>i. i < length ps \<Longrightarrow> within_reach metric cs (col ps i) \<Longrightarrow>
      nearest_by metric cs (col ps i) (m' ! i)" by simp
next
  assume "\<forall>i<length ps. within_reach metric cs (col ps i)"
  then have "\<forall>i\<in>set [0..<length ps]. within_reach metric cs (col ps i)" by simp
  from assign_brute_metric_returns [OF this]
  show "\<exists>m' ind' unch.
      assign_brute_metric metric ps cs [0..<length ps] (m, ind, True) = Inr (m', ind', unch)" .
qed

text \<open>
  The missed case in the exact arithmetic: a centroid with an infinite coordinate, which a
  caller's matrix of \<open>float\<close> can hold, is at the distance plus infinity from the only
  point, and the first pass of the call reads \<open>extr_dist_ind\<close> before anything was
  stored in it.
\<close>

lemma pass_reads_unset_index_at_infinite_distance:
  "sq_dist [PInf, Fin 0] (col [[0, 0]] 0) = PInf \<and>
   cluster_impl knn 1 tol False ((KMeans [[0, 0]])\<lparr>cluster_centroids := [[PInf, Fin 0]]\<rparr>)
     = Inl IndeterminateRead"
  by (simp add: model_defs cluster_loop.simps upt_rec Let_def)

text \<open>
  C7.  The specification requires that every brute-force pass assigns each point to the
  cluster of least distance, the lowest index winning a tie.  The scan does so only for a
  point within reach: \<open>extr_dist_ind\<close> is not set at the start of the scan of a point,
  so a point whose distances all evaluate to plus infinity is given the cluster of the
  point before it.  In \<open>float\<close> that happens to finite points.  The points are
  \<open>(0, 0)\<close> and \<open>(2^71, 0)\<close> and the centroids \<open>(2^70, 0)\<close> and \<open>(0, 0)\<close>; the
  differences are exact in \<open>float\<close>, and their squares \<open>2^140\<close> and \<open>2^142\<close>
  exceed the largest \<open>float\<close>, so the squared distance evaluates to \<open>0\<close> for the
  centroid \<open>(0, 0)\<close> and the point \<open>(0, 0)\<close> and to plus infinity for the three
  other pairs; the initial index map is \<open>0, 0\<close>.  The first point is
  assigned cluster 1.  For the second point both distances are plus infinity: the tie
  goes to cluster 0 by the rule of the specification, cluster 0 is also the nearer one
  by the exact distances, and the pass stores cluster 1, which the local still holds.
\<close>

theorem overflowing_distances_keep_stale_cluster:
  "assign_brute_metric
     (\<lambda>c p. if c = [Fin 0, Fin 0] \<and> p = [Fin 0, Fin 0] then Fin 0 else PInf)
     [[0, 0], [2 ^ 71, 0]] [[Fin (2 ^ 70), Fin 0], [Fin 0, Fin 0]] [0..<2] ([0, 0], None, True)
     = Inr ([1, 1], Some 1, False) \<and>
   s_less (sq_dist [Fin (2 ^ 70), Fin 0] (col [[0, 0], [2 ^ 71, 0]] 1))
          (sq_dist [Fin 0, Fin 0] (col [[0, 0], [2 ^ 71, 0]] 1))"
  by (simp add: nearest_metric_def nearest_step_metric_def col_def sq_dist_def squaredNorm_def
        v_sub_def s_sub_def upt_rec)

section \<open>Sums, counts, the largest cluster and its furthest point\<close>

lemma count_list_update:
  "e < length m \<Longrightarrow>
   count_list (m[e := v]) c + (if m ! e = c then 1 else 0)
     = count_list m c + (if v = c then 1 else 0)"
proof (induction m arbitrary: e)
  case Nil
  then show ?case by simp
next
  case (Cons x m)
  show ?case
  proof (cases e)
    case 0
    then show ?thesis by simp
  next
    case (Suc e')
    with Cons.prems have "e' < length m" by simp
    from Cons.IH [OF this] Suc show ?thesis by (auto split: if_splits)
  qed
qed

lemma count_list_pos_iff: "0 < count_list m c \<longleftrightarrow> c \<in> set m"
  by (induction m) auto

lemma sum_count_list:
  fixes K :: nat
  shows "\<forall>x\<in>set m. x < K \<Longrightarrow> (\<Sum>c<K. count_list m c) = length m"
proof (induction m)
  case Nil
  then show ?case by simp
next
  case (Cons x m)
  then have x: "x < K" and rest: "(\<Sum>c<K. count_list m c) = length m" by simp_all
  have "(\<Sum>c<K. count_list (x # m) c) = (\<Sum>c<K. count_list m c + (if x = c then 1 else 0))"
    by (intro sum.cong) simp_all
  also have "\<dots> = (\<Sum>c<K. count_list m c) + (\<Sum>c<K. if x = c then 1 else 0)"
    by (simp add: sum.distrib)
  also have "(\<Sum>c<K. if x = c then 1 else 0) = (1::nat)"
    using x by (simp add: sum.delta')
  finally show ?case using rest by simp
qed

lemma sum_nth_less_length:
  fixes pc :: "nat list"
  assumes "\<forall>c<length pc. pc ! c \<le> 1" and "i < length pc" and "pc ! i = 0"
  shows "(\<Sum>c<length pc. pc ! c) < length pc"
proof -
  have "(\<Sum>c<length pc. pc ! c) = (\<Sum>c\<in>{..<length pc} - {i}. pc ! c) + pc ! i"
    using assms(2) by (simp add: sum.remove [of _ i])
  also have "\<dots> = (\<Sum>c\<in>{..<length pc} - {i}. pc ! c)" using assms(3) by simp
  also have "\<dots> \<le> (\<Sum>c\<in>{..<length pc} - {i}. 1)"
    using assms(1) by (intro sum_mono) simp
  also have "\<dots> = length pc - 1" using assms(2) by simp
  finally show ?thesis using assms(2) by simp
qed

lemma sum_nth_ge_length:
  fixes pc :: "nat list"
  assumes "\<forall>c<length pc. 1 \<le> pc ! c"
  shows "length pc \<le> (\<Sum>c<length pc. pc ! c)"
proof -
  have "(\<Sum>c<length pc. 1) \<le> (\<Sum>c<length pc. pc ! c)"
    using assms by (intro sum_mono) simp
  then show ?thesis by simp
qed

lemma accumulate_ok:
  assumes "\<forall>i\<in>set is. m ! i < length cs" and "length pc = length cs"
  shows "\<exists>cs' pc'. accumulate ps m is (cs, pc) = Inr (cs', pc') \<and>
           length cs' = length cs \<and> length pc' = length cs \<and>
           (fin_mat cs \<longrightarrow> fin_mat cs') \<and>
           (\<forall>c<length cs. pc' ! c = pc ! c + count_list (map ((!) m) is) c) \<and>
           (\<forall>c<length cs. c \<notin> (!) m ` set is \<longrightarrow> cs' ! c = cs ! c)"
  using assms
proof (induction "is" arbitrary: cs pc)
  case Nil
  then show ?case by simp
next
  case (Cons i "is")
  let ?c = "m ! i"
  let ?cs = "cs[?c := v_add (cs ! ?c) (col ps i)]"
  let ?pc = "pc[?c := pc ! ?c + 1]"
  from Cons.prems have c: "?c < length cs" and r: "\<forall>k\<in>set is. m ! k < length ?cs"
    and l: "length ?pc = length ?cs" by simp_all
  from Cons.IH [OF r l] obtain cs' pc' where
    res: "accumulate ps m is (?cs, ?pc) = Inr (cs', pc')"
    and len: "length cs' = length cs" "length pc' = length cs"
    and fin: "fin_mat ?cs \<longrightarrow> fin_mat cs'"
    and cnt: "\<forall>k<length cs. pc' ! k = ?pc ! k + count_list (map ((!) m) is) k"
    and same: "\<forall>k<length cs. k \<notin> (!) m ` set is \<longrightarrow> cs' ! k = ?cs ! k"
    by auto
  have step: "accumulate ps m (i # is) (cs, pc) = Inr (cs', pc')"
    using c res by simp
  have f: "fin_mat cs \<longrightarrow> fin_mat cs'"
  proof
    assume fc: "fin_mat cs"
    have "fin_mat ?cs"
    proof (rule fin_matI)
      fix j assume "j < length ?cs"
      then have j: "j < length cs" by simp
      show "fin_vec (?cs ! j)"
      proof (cases "j = ?c")
        case True
        with j fc show ?thesis
          by (simp add: fin_vec_add fin_mat_nth fin_vec_col)
      next
        case False
        with j fc show ?thesis by (simp add: fin_mat_nth)
      qed
    qed
    with fin show "fin_mat cs'" by simp
  qed
  have n: "\<forall>k<length cs. pc' ! k = pc ! k + count_list (map ((!) m) (i # is)) k"
  proof (intro allI impI)
    fix k assume k: "k < length cs"
    with cnt have "pc' ! k = ?pc ! k + count_list (map ((!) m) is) k" by simp
    moreover have "?pc ! k = pc ! k + (if ?c = k then 1 else 0)"
      using k Cons.prems(2) by (simp add: nth_list_update)
    ultimately show "pc' ! k = pc ! k + count_list (map ((!) m) (i # is)) k" by simp
  qed
  have s: "\<forall>k<length cs. k \<notin> (!) m ` set (i # is) \<longrightarrow> cs' ! k = cs ! k"
  proof (intro allI impI)
    fix k assume k: "k < length cs" and nk: "k \<notin> (!) m ` set (i # is)"
    then have "k \<noteq> ?c" and "k \<notin> (!) m ` set is" by auto
    with same k show "cs' ! k = cs ! k" by simp
  qed
  from step len f n s show ?case by blast
qed

lemma fin_mat_zero: "fin_mat (map (map (\<lambda>_. Fin 0)) cs)"
  by (simp add: fin_mat_def fin_vec_def list_all_iff)

lemma accumulate_from_zero:
  assumes "length m = length ps" and "\<forall>x\<in>set m. x < length cs"
  shows "\<exists>sm pc. accumulate ps m [0..<length ps]
              (map (map (\<lambda>_. Fin 0)) cs, replicate (length cs) 0) = Inr (sm, pc) \<and>
           length sm = length cs \<and> length pc = length cs \<and> fin_mat sm \<and>
           (\<forall>c<length cs. pc ! c = count_list m c) \<and>
           (\<forall>c<length cs. c \<notin> set m \<longrightarrow> sm ! c = map (\<lambda>_. Fin 0) (cs ! c))"
proof -
  let ?z = "map (map (\<lambda>_. Fin 0)) cs"
  have a: "\<forall>i\<in>set [0..<length ps]. m ! i < length ?z"
    using assms by simp
  have b: "length (replicate (length cs) (0::nat)) = length ?z" by simp
  have idx: "map ((!) m) [0..<length ps] = m"
    using assms(1) map_nth [of m] by simp
  have img: "(!) m ` set [0..<length ps] = set m"
    using idx by (metis set_map)
  from accumulate_ok [OF a b, of ps] obtain sm pc where
    res: "accumulate ps m [0..<length ps] (?z, replicate (length cs) 0) = Inr (sm, pc)"
    and len: "length sm = length ?z" "length pc = length ?z"
    and fin: "fin_mat ?z \<longrightarrow> fin_mat sm"
    and cnt: "\<forall>c<length ?z. pc ! c
                = replicate (length cs) 0 ! c + count_list (map ((!) m) [0..<length ps]) c"
    and same: "\<forall>c<length ?z. c \<notin> (!) m ` set [0..<length ps] \<longrightarrow> sm ! c = ?z ! c"
    by blast
  from cnt idx have "\<forall>c<length cs. pc ! c = count_list m c" by simp
  moreover from same img have "\<forall>c<length cs. c \<notin> set m \<longrightarrow> sm ! c = map (\<lambda>_. Fin 0) (cs ! c)"
    by simp
  moreover from fin have "fin_mat sm" by (simp add: fin_mat_zero)
  ultimately show ?thesis using res len by simp
qed

lemma largest_cluster_prefix:
  fixes pc :: "nat list"
  shows "0 < n \<Longrightarrow> n \<le> length pc \<Longrightarrow>
   fold (\<lambda>j max_ind. if pc ! max_ind < pc ! j then j else max_ind) [1..<n] 0 < n \<and>
   (\<forall>c<n. pc ! c \<le> pc ! fold (\<lambda>j max_ind. if pc ! max_ind < pc ! j then j else max_ind) [1..<n] 0)"
proof (induction n)
  case 0
  then show ?case by simp
next
  case (Suc n)
  let ?f = "\<lambda>j max_ind. if pc ! max_ind < pc ! j then j else max_ind"
  show ?case
  proof (cases "n = 0")
    case True
    then show ?thesis by simp
  next
    case False
    with Suc have IH: "fold ?f [1..<n] 0 < n" "\<forall>c<n. pc ! c \<le> pc ! fold ?f [1..<n] 0"
      by simp_all
    from False have "[1..<Suc n] = [1..<n] @ [n]" by simp
    then have eq: "fold ?f [1..<Suc n] 0 = ?f n (fold ?f [1..<n] 0)" by simp
    show ?thesis
    proof (cases "pc ! fold ?f [1..<n] 0 < pc ! n")
      case True
      with eq have "fold ?f [1..<Suc n] 0 = n" by simp
      moreover have "\<forall>c<Suc n. pc ! c \<le> pc ! n"
        using IH(2) True by (auto simp: less_Suc_eq intro: order_trans less_imp_le)
      ultimately show ?thesis by simp
    next
      case F: False
      with eq have "fold ?f [1..<Suc n] 0 = fold ?f [1..<n] 0" by simp
      moreover have "\<forall>c<Suc n. pc ! c \<le> pc ! fold ?f [1..<n] 0"
        using IH(2) F by (auto simp: less_Suc_eq)
      ultimately show ?thesis using IH(1) by simp
    qed
  qed
qed

lemma largest_cluster_max:
  "pc \<noteq> [] \<Longrightarrow>
   largest_cluster pc < length pc \<and> (\<forall>c<length pc. pc ! c \<le> pc ! largest_cluster pc)"
  using largest_cluster_prefix [of "length pc" pc] by (simp add: largest_cluster_def)

lemma farthest_step_unfold:
  "farthest_step ps m mx oc j acc =
     (if m ! j = mx
      then (if s_less (fst acc) (sq_dist oc (col ps j)) then (sq_dist oc (col ps j), Some j) else acc)
      else acc)"
  by (simp add: farthest_step_def Let_def)

lemma farthest_prefix:
  assumes "fin_vec oc"
  shows "n \<le> length ps \<Longrightarrow>
    (if \<exists>j<n. m ! j = mx
     then \<exists>e<n. \<exists>r\<ge>0. fold (farthest_step ps m mx oc) [0..<n] (Fin (- 1), ind) = (Fin r, Some e)
             \<and> m ! e = mx
     else fold (farthest_step ps m mx oc) [0..<n] (Fin (- 1), ind) = (Fin (- 1), ind))"
proof (induction n)
  case 0
  then show ?case by simp
next
  case (Suc n)
  let ?F = "\<lambda>k. fold (farthest_step ps m mx oc) [0..<k] (Fin (- 1), ind)"
  from Suc have IH: "if \<exists>j<n. m ! j = mx
     then \<exists>e<n. \<exists>r\<ge>0. ?F n = (Fin r, Some e) \<and> m ! e = mx
     else ?F n = (Fin (- 1), ind)" by simp
  have eq: "?F (Suc n) = farthest_step ps m mx oc n (?F n)" by simp
  show ?case
  proof (cases "m ! n = mx")
    case False
    then have iff: "(\<exists>j<Suc n. m ! j = mx) \<longleftrightarrow> (\<exists>j<n. m ! j = mx)"
      by (auto simp: less_Suc_eq)
    from False eq have same: "?F (Suc n) = ?F n" by (simp add: farthest_step_unfold)
    show ?thesis
    proof (cases "\<exists>j<n. m ! j = mx")
      case True
      with IH obtain e r where "e < n" "0 \<le> r" "?F n = (Fin r, Some e)" "m ! e = mx"
        by auto
      then have "\<exists>e<Suc n. \<exists>r\<ge>0. ?F (Suc n) = (Fin r, Some e) \<and> m ! e = mx"
        unfolding same by (metis less_Suc_eq)
      with True iff show ?thesis by simp
    next
      case F: False
      with IH have "?F n = (Fin (- 1), ind)" by simp
      with F iff same show ?thesis by simp
    qed
  next
    case True
    from sq_dist_fin [OF assms fin_vec_col, of ps n] obtain r where
      r: "0 \<le> r" "sq_dist oc (col ps n) = Fin r" by blast
    have ex: "\<exists>j<Suc n. m ! j = mx" using True by blast
    have "\<exists>e<Suc n. \<exists>r\<ge>0. ?F (Suc n) = (Fin r, Some e) \<and> m ! e = mx"
    proof (cases "\<exists>j<n. m ! j = mx")
      case False
      with IH have "?F n = (Fin (- 1), ind)" by simp
      with eq True r have "?F (Suc n) = (Fin r, Some n)"
        by (simp add: farthest_step_unfold)
      with r True show ?thesis by blast
    next
      case T: True
      with IH obtain e r' where e: "e < n" "0 \<le> r'" "?F n = (Fin r', Some e)" "m ! e = mx"
        by auto
      show ?thesis
      proof (cases "r' < r")
        case True
        with eq e r \<open>m ! n = mx\<close> have "?F (Suc n) = (Fin r, Some n)"
          by (simp add: farthest_step_unfold)
        with r \<open>m ! n = mx\<close> show ?thesis by blast
      next
        case False
        with eq e r \<open>m ! n = mx\<close> have "?F (Suc n) = (Fin r', Some e)"
          by (simp add: farthest_step_unfold)
        with e show ?thesis by (metis less_Suc_eq)
      qed
    qed
    with ex show ?thesis by simp
  qed
qed

lemma farthest_finds:
  assumes "fin_vec oc" and "\<exists>j<length ps. m ! j = mx"
  shows "\<exists>e<length ps. snd (farthest ps m mx oc ind) = Some e \<and> m ! e = mx"
  using farthest_prefix [OF assms(1), of "length ps" ps m mx ind] assms(2)
  by (auto simp: farthest_def)

section \<open>One step of the repair loop\<close>

lemma recip_count_fin: "n \<noteq> 0 \<Longrightarrow> is_fin (recip_count n)"
  by (simp add: recip_count_def)

lemma repair_cluster_nonempty:
  "pc ! i \<noteq> 0 \<Longrightarrow> repair_cluster ps i (cs, pc, m, ind) = Inr (cs, pc, m, ind)"
  by (simp add: repair_cluster_def)

lemma repair_cluster_empty:
  assumes inv: "consistent ps K (cs, pc, m, ind)" and i: "i < K" and ne: "ps \<noteq> []"
    and z: "pc ! i = 0"
  shows "\<exists>mx e. mx = largest_cluster pc \<and> mx < K \<and> mx \<noteq> i \<and> 1 \<le> pc ! mx \<and>
           (\<forall>c<K. pc ! c \<le> pc ! mx) \<and> e < length ps \<and> m ! e = mx \<and>
           repair_cluster ps i (cs, pc, m, ind) =
             Inr (cs[mx := v_sub (cs ! mx) (col ps e)], pc[mx := pc ! mx - 1, i := 1],
                  m[e := i], Some e) \<and>
           consistent ps K (cs[mx := v_sub (cs ! mx) (col ps e)], pc[mx := pc ! mx - 1, i := 1],
                  m[e := i], Some e)"
proof -
  from inv have lc: "length cs = K" and lp: "length pc = K" and lm: "length m = length ps"
    and fc: "fin_mat cs" and vm: "\<forall>x\<in>set m. x < K" and cnt: "\<forall>c<K. pc ! c = count_list m c"
    by (simp_all add: consistent_def)
  let ?mx = "largest_cluster pc"
  from i lp have "pc \<noteq> []" by auto
  from largest_cluster_max [OF this] lp
  have mx: "?mx < K" and mxmax: "\<forall>c<K. pc ! c \<le> pc ! ?mx" by simp_all
  from ne lm have "m \<noteq> []" by auto
  then have "m ! 0 \<in> set m" by simp
  with vm have x0: "m ! 0 < K" and "0 < count_list m (m ! 0)"
    by (simp_all add: count_list_pos_iff)
  with cnt have "1 \<le> pc ! (m ! 0)" by simp
  with mxmax x0 have big: "1 \<le> pc ! ?mx" by (meson order_trans)
  with z have neq: "?mx \<noteq> i" by auto
  from big cnt mx have "0 < count_list m ?mx" by simp
  then have "?mx \<in> set m" by (simp add: count_list_pos_iff)
  then obtain j where "j < length m" "m ! j = ?mx" by (auto simp: in_set_conv_nth)
  with lm have ex: "\<exists>j<length ps. m ! j = ?mx" by auto
  let ?oc = "v_scale (cs ! ?mx) (recip_count (pc ! ?mx))"
  have "fin_vec ?oc"
    using fc mx lc big by (intro fin_vec_scale fin_mat_nth recip_count_fin) simp_all
  from farthest_finds [OF this ex, of ind] obtain e where
    e: "e < length ps" "snd (farthest ps m ?mx ?oc ind) = Some e" "m ! e = ?mx"
    by blast
  let ?cs = "cs[?mx := v_sub (cs ! ?mx) (col ps e)]"
  let ?pc = "pc[?mx := pc ! ?mx - 1, i := 1]"
  let ?m = "m[e := i]"
  have dec: "dec_size_t (pc ! ?mx) = pc ! ?mx - 1"
    using big by (simp add: dec_size_t_def)
  have "pc[?mx := pc ! ?mx - 1] ! i = 0"
    using neq z by simp
  then have inc: "inc_size_t (pc[?mx := pc ! ?mx - 1] ! i) = 1"
    by (simp add: inc_size_t_def)
  have run: "repair_cluster ps i (cs, pc, m, ind) = Inr (?cs, ?pc, ?m, Some e)"
    using z e lm dec inc by (simp add: repair_cluster_def Let_def)
  have f: "fin_mat ?cs"
  proof (rule fin_matI)
    fix j assume "j < length ?cs"
    then have j: "j < length cs" by simp
    show "fin_vec (?cs ! j)"
    proof (cases "j = ?mx")
      case True
      with j fc show ?thesis
        by (simp add: fin_vec_sub fin_mat_nth fin_vec_col)
    next
      case False
      with j fc show ?thesis by (simp add: fin_mat_nth)
    qed
  qed
  have v: "\<forall>x\<in>set ?m. x < K"
  proof
    fix x assume "x \<in> set ?m"
    then have "x \<in> insert i (set m)" using set_update_subset_insert [of m e i] by blast
    with vm i show "x < K" by auto
  qed
  have c: "\<forall>c<K. ?pc ! c = count_list ?m c"
  proof (intro allI impI)
    fix c assume c: "c < K"
    from e lm have "e < length m" by simp
    from count_list_update [OF this, of i c] e(3)
    have upd: "count_list ?m c + (if ?mx = c then 1 else 0)
        = count_list m c + (if i = c then 1 else 0)" by simp
    consider "c = i" | "c = ?mx" | "c \<noteq> i" "c \<noteq> ?mx" by blast
    then show "?pc ! c = count_list ?m c"
    proof cases
      case 1
      with upd neq cnt z i have "count_list ?m c = 1" by simp
      with 1 i lp show ?thesis by simp
    next
      case 2
      with upd neq have "count_list ?m c + 1 = count_list m c" by simp
      with 2 cnt mx have "count_list ?m c = pc ! ?mx - 1" by simp
      with 2 neq mx lp show ?thesis by simp
    next
      case 3
      with upd have "count_list ?m c = count_list m c" by simp
      with 3 cnt c show ?thesis by simp
    qed
  qed
  have "consistent ps K (?cs, ?pc, ?m, Some e)"
    using lc lp lm f v c by (simp add: consistent_def)
  with run mx neq big mxmax e show ?thesis by blast
qed

lemma repair_loop_invariant:
  assumes step: "\<And>i s. i < K \<Longrightarrow> P i s \<Longrightarrow> \<exists>s'. repair_cluster ps i s = Inr s' \<and> P (Suc i) s'"
  shows "i \<le> K \<Longrightarrow> P i s \<Longrightarrow> \<exists>s'. repair_loop ps [i..<K] s = Inr s' \<and> P K s'"
proof (induction "K - i" arbitrary: i s)
  case 0
  then show ?case by simp
next
  case (Suc d)
  then have lt: "i < K" and d: "d = K - Suc i" and le: "Suc i \<le> K" by simp_all
  from step [OF lt Suc.prems(2)] obtain s1 where
    s1: "repair_cluster ps i s = Inr s1" "P (Suc i) s1" by blast
  from Suc.hyps(1) [OF d le s1(2)] obtain s' where
    "repair_loop ps [Suc i..<K] s1 = Inr s'" "P K s'" by blast
  with s1 lt show ?case by (simp add: upt_conv_Cons)
qed

lemma counts_sum:
  assumes "consistent ps K (cs, pc, m, ind)"
  shows "(\<Sum>c<length pc. pc ! c) = length ps"
proof -
  from assms have lp: "length pc = K" and lm: "length m = length ps"
    and vm: "\<forall>x\<in>set m. x < K" and cnt: "\<forall>c<K. pc ! c = count_list m c"
    by (simp_all add: consistent_def)
  have "(\<Sum>c<K. pc ! c) = (\<Sum>c<K. count_list m c)"
    using cnt by (intro sum.cong) simp_all
  with sum_count_list [OF vm] lp lm show ?thesis by simp
qed

lemma repair_step_all:
  assumes inv: "consistent ps K s" and i: "i < K" and ne: "ps \<noteq> []"
    and tr: "snd (snd (snd s)) = ind0 \<or> (\<exists>e<length ps. snd (snd (snd s)) = Some e)"
    and rp: "K \<le> length ps \<longrightarrow> repaired_upto K E Z i s"
  shows "\<exists>s'. repair_cluster ps i s = Inr s' \<and> consistent ps K s' \<and>
           (snd (snd (snd s')) = ind0 \<or> (\<exists>e<length ps. snd (snd (snd s')) = Some e)) \<and>
           (K \<le> length ps \<longrightarrow> repaired_upto K E Z (Suc i) s')"
proof -
  obtain cs pc m ind where s: "s = (cs, pc, m, ind)" by (cases s) auto
  show ?thesis
  proof (cases "pc ! i = 0")
    case False
    then have run: "repair_cluster ps i s = Inr s"
      unfolding s by (rule repair_cluster_nonempty)
    have "K \<le> length ps \<longrightarrow> repaired_upto K E Z (Suc i) s"
    proof
      assume "K \<le> length ps"
      with rp have r: "repaired_upto K E Z i s" by simp
      have "i \<notin> E"
      proof
        assume "i \<in> E"
        with r i s have "pc ! i = 0" by (simp add: repaired_upto_def)
        with False show False by simp
      qed
      with r s show "repaired_upto K E Z (Suc i) s"
        by (auto simp: repaired_upto_def less_Suc_eq)
    qed
    with run inv tr show ?thesis by simp
  next
    case True
    from repair_cluster_empty [OF inv [unfolded s] i ne True] obtain mx e where
      mx: "mx < K" "mx \<noteq> i" "1 \<le> pc ! mx" "\<forall>c<K. pc ! c \<le> pc ! mx"
      and e: "e < length ps" "m ! e = mx"
      and run: "repair_cluster ps i (cs, pc, m, ind) =
             Inr (cs[mx := v_sub (cs ! mx) (col ps e)], pc[mx := pc ! mx - 1, i := 1],
                  m[e := i], Some e)"
      and inv': "consistent ps K (cs[mx := v_sub (cs ! mx) (col ps e)],
                  pc[mx := pc ! mx - 1, i := 1], m[e := i], Some e)"
      by blast
    let ?s' = "(cs[mx := v_sub (cs ! mx) (col ps e)], pc[mx := pc ! mx - 1, i := 1],
                  m[e := i], Some e)"
    from inv s have lc: "length cs = K" and lp: "length pc = K"
      by (simp_all add: consistent_def)
    have "K \<le> length ps \<longrightarrow> repaired_upto K E Z (Suc i) ?s'"
    proof
      assume kn: "K \<le> length ps"
      with rp s have r: "\<forall>c<K. (c \<in> E \<longrightarrow> cs ! c = Z c \<and> pc ! c = (if c < i then 1 else 0)) \<and>
              (c \<notin> E \<longrightarrow> 1 \<le> pc ! c)"
        by (simp add: repaired_upto_def)
      from r i True have iE: "i \<in> E" by force
      have two: "2 \<le> pc ! mx"
      proof (rule ccontr)
        assume "\<not> 2 \<le> pc ! mx"
        with mx(4) lp have "\<forall>c<length pc. pc ! c \<le> 1" by fastforce
        from sum_nth_less_length [OF this _ True] i lp
        have "(\<Sum>c<length pc. pc ! c) < K" by simp
        with counts_sum [OF inv [unfolded s]] kn show False by simp
      qed
      have mxE: "mx \<notin> E"
      proof
        assume "mx \<in> E"
        with r mx(1) have "pc ! mx \<le> 1" by (auto split: if_splits)
        with two show False by simp
      qed
      have "\<forall>c<K. (c \<in> E \<longrightarrow> cs[mx := v_sub (cs ! mx) (col ps e)] ! c = Z c \<and>
                 pc[mx := pc ! mx - 1, i := 1] ! c = (if c < Suc i then 1 else 0)) \<and>
              (c \<notin> E \<longrightarrow> 1 \<le> pc[mx := pc ! mx - 1, i := 1] ! c)"
      proof (intro allI impI conjI)
        fix c assume c: "c < K" and cE: "c \<in> E"
        with mxE have "c \<noteq> mx" by auto
        then show "cs[mx := v_sub (cs ! mx) (col ps e)] ! c = Z c"
          using r c cE by simp
        show "pc[mx := pc ! mx - 1, i := 1] ! c = (if c < Suc i then 1 else 0)"
        proof (cases "c = i")
          case True
          with i lp show ?thesis by simp
        next
          case False
          with \<open>c \<noteq> mx\<close> have "pc[mx := pc ! mx - 1, i := 1] ! c = pc ! c" by simp
          with r c cE False show ?thesis by (auto simp: less_Suc_eq)
        qed
      next
        fix c assume c: "c < K" and cE: "c \<notin> E"
        with iE have ci: "c \<noteq> i" by auto
        show "1 \<le> pc[mx := pc ! mx - 1, i := 1] ! c"
        proof (cases "c = mx")
          case True
          with ci mx(1) lp two show ?thesis by simp
        next
          case False
          with ci have "pc[mx := pc ! mx - 1, i := 1] ! c = pc ! c" by simp
          with r c cE show ?thesis by simp
        qed
      qed
      then show "repaired_upto K E Z (Suc i) ?s'"
        by (simp add: repaired_upto_def)
    qed
    with run inv' e(1) s show ?thesis by simp
  qed
qed

section \<open>One centroid update\<close>

lemma accumulate_and_repair_ok:
  assumes lm: "length m = length ps" and vm: "\<forall>x\<in>set m. x < length cs" and ne: "ps \<noteq> []"
  shows "\<exists>sm pc m' ind'.
           accumulate_and_repair ps m cs ind = Inr (sm, pc, m', ind') \<and>
           consistent ps (length cs) (sm, pc, m', ind') \<and>
           (ind' = ind \<or> (\<exists>e<length ps. ind' = Some e)) \<and>
           (length cs \<le> length ps \<longrightarrow>
              (\<forall>c<length cs. 1 \<le> pc ! c \<and>
                 (c \<notin> set m \<longrightarrow> sm ! c = map (\<lambda>_. Fin 0) (cs ! c) \<and> pc ! c = 1)))"
proof -
  let ?K = "length cs"
  let ?E = "{c. c \<notin> set m}"
  let ?Z = "\<lambda>c. map (\<lambda>_. Fin 0) (cs ! c)"
  let ?P = "\<lambda>i s. consistent ps ?K s \<and>
      (snd (snd (snd s)) = ind \<or> (\<exists>e<length ps. snd (snd (snd s)) = Some e)) \<and>
      (?K \<le> length ps \<longrightarrow> repaired_upto ?K ?E ?Z i s)"
  from accumulate_from_zero [OF lm vm] obtain sm0 pc0 where
    acc: "accumulate ps m [0..<length ps]
              (map (map (\<lambda>_. Fin 0)) cs, replicate ?K 0) = Inr (sm0, pc0)"
    and len: "length sm0 = ?K" "length pc0 = ?K" and fin: "fin_mat sm0"
    and cnt: "\<forall>c<?K. pc0 ! c = count_list m c"
    and zero: "\<forall>c<?K. c \<notin> set m \<longrightarrow> sm0 ! c = ?Z c"
    by blast
  have c0: "consistent ps ?K (sm0, pc0, m, ind)"
    using len fin cnt lm vm by (simp add: consistent_def)
  have r0: "repaired_upto ?K ?E ?Z 0 (sm0, pc0, m, ind)"
    unfolding repaired_upto_def
  proof (simp, intro allI impI conjI)
    fix c assume "c < ?K" "c \<notin> set m"
    with zero show "sm0 ! c = ?Z c" by simp
  next
    fix c assume c: "c < ?K" "c \<notin> set m"
    then have "count_list m c = 0" using count_list_pos_iff [of m c] by simp
    with cnt c show "pc0 ! c = 0" by simp
  next
    fix c assume c: "c < ?K" "c \<in> set m"
    then have "0 < count_list m c" by (simp add: count_list_pos_iff)
    with cnt c show "Suc 0 \<le> pc0 ! c" by simp
  qed
  have P0: "?P 0 (sm0, pc0, m, ind)" using c0 r0 by simp
  have step: "\<And>i s. i < ?K \<Longrightarrow> ?P i s \<Longrightarrow> \<exists>s'. repair_cluster ps i s = Inr s' \<and> ?P (Suc i) s'"
  proof -
    fix i s assume i: "i < ?K" and P: "?P i s"
    from P have a: "consistent ps ?K s"
      and b: "snd (snd (snd s)) = ind \<or> (\<exists>e<length ps. snd (snd (snd s)) = Some e)"
      and c: "?K \<le> length ps \<longrightarrow> repaired_upto ?K ?E ?Z i s" by simp_all
    from repair_step_all [OF a i ne b c]
    show "\<exists>s'. repair_cluster ps i s = Inr s' \<and> ?P (Suc i) s'" by simp
  qed
  have "0 \<le> ?K" by simp
  from repair_loop_invariant [of ?K ?P ps 0 "(sm0, pc0, m, ind)", OF step this P0]
  obtain s' where loop: "repair_loop ps [0..<?K] (sm0, pc0, m, ind) = Inr s'" and PK: "?P ?K s'"
    by blast
  obtain sm pc m' ind' where s': "s' = (sm, pc, m', ind')" by (cases s') auto
  have run: "accumulate_and_repair ps m cs ind = Inr (sm, pc, m', ind')"
    using acc loop s' by (simp add: accumulate_and_repair_def)
  have fin_counts: "?K \<le> length ps \<longrightarrow>
              (\<forall>c<?K. 1 \<le> pc ! c \<and> (c \<notin> set m \<longrightarrow> sm ! c = ?Z c \<and> pc ! c = 1))"
  proof
    assume "?K \<le> length ps"
    with PK s' have r: "\<forall>c<?K. (c \<in> ?E \<longrightarrow> sm ! c = ?Z c \<and> pc ! c = (if c < ?K then 1 else 0)) \<and>
              (c \<notin> ?E \<longrightarrow> 1 \<le> pc ! c)"
      by (simp add: repaired_upto_def)
    show "\<forall>c<?K. 1 \<le> pc ! c \<and> (c \<notin> set m \<longrightarrow> sm ! c = ?Z c \<and> pc ! c = 1)"
    proof (intro allI impI)
      fix c assume c: "c < ?K"
      show "1 \<le> pc ! c \<and> (c \<notin> set m \<longrightarrow> sm ! c = ?Z c \<and> pc ! c = 1)"
      proof (cases "c \<in> set m")
        case True
        with r c show ?thesis by simp
      next
        case False
        with r c show ?thesis by simp
      qed
    qed
  qed
  from PK s' have "consistent ps ?K (sm, pc, m', ind')"
    and "ind' = ind \<or> (\<exists>e<length ps. ind' = Some e)" by simp_all
  with run fin_counts show ?thesis by blast
qed

lemma compute_new_centroids_length: "length (compute_new_centroids sm pc) = length sm"
  by (simp add: compute_new_centroids_def)

lemma compute_new_centroids_nth:
  "c < length sm \<Longrightarrow> compute_new_centroids sm pc ! c = v_scale (sm ! c) (recip_count (pc ! c))"
  by (simp add: compute_new_centroids_def)

lemma v_scale_zero_one:
  "v_scale (map (\<lambda>_. Fin 0) v) (recip_count 1) = map (\<lambda>_. Fin 0) v"
  by (simp add: v_scale_def recip_count_def)

lemma update_centroids_ok:
  assumes lm: "length m = length ps" and vm: "\<forall>x\<in>set m. x < length cs" and ne: "ps \<noteq> []"
  shows "\<exists>cs2 m2 ind2.
           update_centroids ps m cs ind = Inr (cs2, m2, ind2) \<and>
           length cs2 = length cs \<and> length m2 = length ps \<and> (\<forall>x\<in>set m2. x < length cs) \<and>
           (ind2 = ind \<or> (\<exists>e<length ps. ind2 = Some e)) \<and>
           (length cs \<le> length ps \<longrightarrow>
              fin_mat cs2 \<and> (\<forall>c<length cs. c \<notin> set m \<longrightarrow> cs2 ! c = map (\<lambda>_. Fin 0) (cs ! c)))"
proof -
  from accumulate_and_repair_ok [OF assms, of ind] obtain sm pc m' ind' where
    run: "accumulate_and_repair ps m cs ind = Inr (sm, pc, m', ind')"
    and inv: "consistent ps (length cs) (sm, pc, m', ind')"
    and tr: "ind' = ind \<or> (\<exists>e<length ps. ind' = Some e)"
    and en: "length cs \<le> length ps \<longrightarrow>
              (\<forall>c<length cs. 1 \<le> pc ! c \<and>
                 (c \<notin> set m \<longrightarrow> sm ! c = map (\<lambda>_. Fin 0) (cs ! c) \<and> pc ! c = 1))"
    by blast
  from inv have ls: "length sm = length cs" and lm': "length m' = length ps"
    and fs: "fin_mat sm" and vm': "\<forall>x\<in>set m'. x < length cs"
    by (simp_all add: consistent_def)
  let ?cs2 = "compute_new_centroids sm pc"
  have upd: "update_centroids ps m cs ind = Inr (?cs2, m', ind')"
    using run by (simp add: update_centroids_def)
  have "length cs \<le> length ps \<longrightarrow>
      fin_mat ?cs2 \<and> (\<forall>c<length cs. c \<notin> set m \<longrightarrow> ?cs2 ! c = map (\<lambda>_. Fin 0) (cs ! c))"
  proof
    assume "length cs \<le> length ps"
    with en have e: "\<forall>c<length cs. 1 \<le> pc ! c \<and>
                 (c \<notin> set m \<longrightarrow> sm ! c = map (\<lambda>_. Fin 0) (cs ! c) \<and> pc ! c = 1)" by simp
    have "fin_mat ?cs2"
    proof (rule fin_matI)
      fix j assume "j < length ?cs2"
      then have j: "j < length cs" by (simp add: compute_new_centroids_length ls)
      with e have "pc ! j \<noteq> 0" by fastforce
      then have "is_fin (recip_count (pc ! j))" by (rule recip_count_fin)
      moreover have "fin_vec (sm ! j)" using fs j ls by (simp add: fin_mat_nth)
      ultimately show "fin_vec (?cs2 ! j)"
        using j ls by (simp add: compute_new_centroids_nth fin_vec_scale)
    qed
    moreover have "\<forall>c<length cs. c \<notin> set m \<longrightarrow> ?cs2 ! c = map (\<lambda>_. Fin 0) (cs ! c)"
    proof (intro allI impI)
      fix c assume c: "c < length cs" "c \<notin> set m"
      with e have "sm ! c = map (\<lambda>_. Fin 0) (cs ! c)" "pc ! c = 1" by simp_all
      with c ls have "?cs2 ! c = v_scale (map (\<lambda>_. Fin 0) (cs ! c)) (recip_count 1)"
        by (simp add: compute_new_centroids_nth)
      then show "?cs2 ! c = map (\<lambda>_. Fin 0) (cs ! c)"
        by (simp only: v_scale_zero_one)
    qed
    ultimately show "fin_mat ?cs2 \<and>
        (\<forall>c<length cs. c \<notin> set m \<longrightarrow> ?cs2 ! c = map (\<lambda>_. Fin 0) (cs ! c))" by simp
  qed
  with upd ls lm' vm' tr show ?thesis
    by (simp add: compute_new_centroids_length)
qed

section \<open>The centroid of a repaired cluster\<close>

text \<open>
  C3, as the code has it.  A repair of the empty cluster \<open>i\<close> moves one point \<open>e\<close> of the
  largest cluster \<open>mx\<close> to \<open>i\<close>: the column of the point is subtracted from the sum of
  \<open>mx\<close> and the count of \<open>mx\<close> is decremented, the sum of \<open>i\<close> is left as it is (the
  column is not added to it), and the count of \<open>i\<close> becomes 1.  Consequently, in every
  iteration with at least as many points as clusters, each cluster that the assignment
  left empty, and that the repair therefore refills, has the zero vector as its centroid
  after the final division.  (With more clusters than points this fails: a refilled
  cluster can be emptied again by a later repair, and its centroid is then its negated
  sum divided by a zero count.)
\<close>

theorem repaired_cluster_gets_zero_centroid:
  assumes "length m = length ps" and "\<forall>x\<in>set m. x < length cs" and "ps \<noteq> []"
  shows "(\<forall>sm pc m0 ind0 i. consistent ps (length cs) (sm, pc, m0, ind0) \<and> i < length cs \<and> pc ! i = 0 \<longrightarrow>
            (\<exists>mx e sm' pc'. repair_cluster ps i (sm, pc, m0, ind0) = Inr (sm', pc', m0[e := i], Some e) \<and>
               mx \<noteq> i \<and> mx < length cs \<and> e < length ps \<and> m0 ! e = mx \<and>
               sm' ! mx = v_sub (sm ! mx) (col ps e) \<and> sm' ! i = sm ! i \<and>
               pc' ! mx = pc ! mx - 1 \<and> pc' ! i = 1)) \<and>
         (length cs \<le> length ps \<longrightarrow>
            (\<exists>cs2 m2 ind2. update_centroids ps m cs ind = Inr (cs2, m2, ind2) \<and>
               (\<forall>c<length cs. c \<notin> set m \<longrightarrow> cs2 ! c = map (\<lambda>_. Fin 0) (cs ! c))))"
proof (intro conjI allI impI)
  fix sm pc m0 ind0 i
  assume h: "consistent ps (length cs) (sm, pc, m0, ind0) \<and> i < length cs \<and> pc ! i = 0"
  then have inv: "consistent ps (length cs) (sm, pc, m0, ind0)" and i: "i < length cs"
    and z: "pc ! i = 0" by simp_all
  from inv have ls: "length sm = length cs" and lp: "length pc = length cs"
    by (simp_all add: consistent_def)
  from repair_cluster_empty [OF inv i assms(3) z] obtain mx e where
    mx: "mx < length cs" "mx \<noteq> i" and e: "e < length ps" "m0 ! e = mx"
    and run: "repair_cluster ps i (sm, pc, m0, ind0) =
             Inr (sm[mx := v_sub (sm ! mx) (col ps e)], pc[mx := pc ! mx - 1, i := 1],
                  m0[e := i], Some e)"
    by blast
  let ?sm = "sm[mx := v_sub (sm ! mx) (col ps e)]"
  let ?pc = "pc[mx := pc ! mx - 1, i := 1]"
  have "?sm ! mx = v_sub (sm ! mx) (col ps e)" using mx ls by simp
  moreover have "?sm ! i = sm ! i" using mx by simp
  moreover have "?pc ! mx = pc ! mx - 1" using mx lp by simp
  moreover have "?pc ! i = 1" using i lp by simp
  ultimately show "\<exists>mx e sm' pc'. repair_cluster ps i (sm, pc, m0, ind0)
               = Inr (sm', pc', m0[e := i], Some e) \<and>
               mx \<noteq> i \<and> mx < length cs \<and> e < length ps \<and> m0 ! e = mx \<and>
               sm' ! mx = v_sub (sm ! mx) (col ps e) \<and> sm' ! i = sm ! i \<and>
               pc' ! mx = pc ! mx - 1 \<and> pc' ! i = 1"
    using run mx e by blast
next
  assume kn: "length cs \<le> length ps"
  from update_centroids_ok [OF assms, of ind] kn
  show "\<exists>cs2 m2 ind2. update_centroids ps m cs ind = Inr (cs2, m2, ind2) \<and>
               (\<forall>c<length cs. c \<notin> set m \<longrightarrow> cs2 ! c = map (\<lambda>_. Fin 0) (cs ! c))"
    by blast
qed

text \<open>
  The theorem on three points that the assignment gave to cluster 0 of two: the repair
  moves point 0 to cluster 1, whose centroid is the zero vector after the division.
\<close>

theorem repaired_cluster_gets_zero_centroid_witness:
  "update_centroids [[1, 2], [3, 4], [5, 6]] [0, 0, 0] [[Fin 1, Fin 1], [Fin 9, Fin 9]] (Some 0)
     = Inr ([[Fin 4, Fin 5], [Fin 0, Fin 0]], [1, 0, 0], Some 0) \<and>
   repair_cluster [[1, 2], [3, 4], [5, 6]] 1
       ([[Fin 9, Fin 12], [Fin 0, Fin 0]], [3, 0], [0, 0, 0], Some 0)
     = Inr ([[Fin 8, Fin 10], [Fin 0, Fin 0]], [2, 1], [1, 0, 0], Some 0)"
proof -
  let ?ps = "[[1, 2], [3, 4], [5, 6]] :: real list list"
  let ?cs = "[[Fin 1, Fin 1], [Fin 9, Fin 9]]"
  let ?m = "[0, 0, 0] :: nat list"
  have h1: "length ?m = length ?ps" by simp
  have h2: "\<forall>x\<in>set ?m. x < length ?cs" by simp
  have h3: "?ps \<noteq> []" by simp
  have h4: "length ?cs \<le> length ?ps" by simp
  have h5: "consistent ?ps (length ?cs) ([[Fin 9, Fin 12], [Fin 0, Fin 0]], [3, 0], ?m, Some 0)
      \<and> 1 < length ?cs \<and> [3, 0 :: nat] ! 1 = 0"
    by (simp add: consistent_def fin_mat_def fin_vec_def less_Suc_eq)
  note inst = repaired_cluster_gets_zero_centroid [OF h1 h2 h3, of "Some 0"]
  from inst h5 have "\<exists>mx e sm' pc'. repair_cluster ?ps 1
        ([[Fin 9, Fin 12], [Fin 0, Fin 0]], [3, 0], ?m, Some 0) = Inr (sm', pc', ?m[e := 1], Some e) \<and>
               mx \<noteq> 1 \<and> mx < length ?cs \<and> e < length ?ps"
    by blast
  moreover have "repair_cluster ?ps 1 ([[Fin 9, Fin 12], [Fin 0, Fin 0]], [3, 0], ?m, Some 0)
     = Inr ([[Fin 8, Fin 10], [Fin 0, Fin 0]], [2, 1], [1, 0, 0], Some 0)"
    by (simp add: model_defs upt_rec Let_def)
  moreover from inst h4 have "\<exists>cs2 m2 ind2. update_centroids ?ps ?m ?cs (Some 0) = Inr (cs2, m2, ind2)"
    by blast
  moreover have "update_centroids ?ps ?m ?cs (Some 0)
     = Inr ([[Fin 4, Fin 5], [Fin 0, Fin 0]], [1, 0, 0], Some 0)"
    by (simp add: model_defs upt_rec Let_def)
  ultimately show ?thesis by simp
qed

text \<open>
  Against C3 as stated: one point and three clusters, the point assigned to cluster 1.
  Cluster 0 is empty and is repaired with the point, the repair of cluster 1 takes the
  point away again, and the final division leaves minus infinity, not zero, in the
  centroid of cluster 0.
\<close>

theorem repaired_then_emptied_cluster_not_zero:
  "update_centroids [[1]] [1] [[Fin 5], [Fin 1], [Fin 7]] (Some 1)
     = Inr ([[NInf], [NInf], [Fin 0]], [2], Some 0)"
  by (simp add: model_defs upt_rec Let_def)

section \<open>Zero counts at the final division\<close>

lemma cluster_impl_no_points:
  "cluster_impl knn max_iter tol kd ((KMeans [])\<lparr>cluster_centroids := cs\<rparr>) =
     Inr \<lparr> data_map = [], cluster_centroids = cs,
           cluster_point_indices = replicate (length cs) [],
           cluster_index_map = [], iteration_count = 0 \<rparr>"
proof -
  have fr: "fresh [] cs = \<lparr> data_map = [], cluster_centroids = cs,
           cluster_point_indices = [], cluster_index_map = [], iteration_count = 0 \<rparr>"
    by (simp add: fresh_def)
  have loop: "cluster_loop knn max_iter tol kd (fresh [] cs, None) = Inr (fresh [] cs)"
  proof (cases "iteration_count (fresh [] cs) < max_iter")
    case False
    then show ?thesis by (rule cluster_loop_done)
  next
    case True
    have "update_assignments knn kd (data_map (fresh [] cs)) (cluster_centroids (fresh [] cs))
        (cluster_index_map (fresh [] cs)) None = Inr ([], None, True)"
      by (simp add: fr update_assignments_def)
    from cluster_loop_unchanged [OF True this] show ?thesis by (simp add: fr)
  qed
  have "fill_buckets (cluster_index_map (fresh [] cs)) [0..<length ([]::real list list)]
           (resize (length cs) [] (cluster_point_indices (fresh [] cs)))
        = Inr (replicate (length cs) [])"
    by (simp add: fr resize_def)
  from cluster_impl_fresh_returns [OF loop this] show ?thesis by (simp add: fr)
qed

text \<open>
  C5, as the code has it.  The code has no error for a cluster left without a point; no
  run fails on that account.  In an iteration on at least one point, whose index map
  gives every point one of the \<open>K\<close> clusters, the accumulation and the repair complete
  and the final division is carried out on their sums and counts; every count is nonzero
  after the repair exactly when there are at least as many points as clusters.  With more
  clusters than points some count is zero and the division by it is performed.  Without
  any point the call returns from its first pass (or at once, when \<open>max_iter = 0\<close>) with
  no iteration counted and the centroids as they were: no division takes place.
\<close>

theorem repair_counts_nonzero_iff_enough_points:
  "(ps \<noteq> [] \<and> length m = length ps \<and> (\<forall>x\<in>set m. x < length cs) \<longrightarrow>
      (\<exists>sm pc m' ind'.
         accumulate_and_repair ps m cs ind = Inr (sm, pc, m', ind') \<and>
         update_centroids ps m cs ind = Inr (compute_new_centroids sm pc, m', ind') \<and>
         length pc = length cs \<and>
         ((\<forall>c<length cs. pc ! c \<noteq> 0) \<longleftrightarrow> length cs \<le> length ps))) \<and>
   cluster_impl knn max_iter tol use_kd_tree ((KMeans [])\<lparr>cluster_centroids := cs\<rparr>) =
     Inr \<lparr> data_map = [], cluster_centroids = cs,
           cluster_point_indices = replicate (length cs) [],
           cluster_index_map = [], iteration_count = 0 \<rparr>"
proof (intro conjI impI)
  assume h: "ps \<noteq> [] \<and> length m = length ps \<and> (\<forall>x\<in>set m. x < length cs)"
  then have ne: "ps \<noteq> []" and lm: "length m = length ps" and vm: "\<forall>x\<in>set m. x < length cs"
    by simp_all
  from accumulate_and_repair_ok [OF lm vm ne, of ind] obtain sm pc m' ind' where
    run: "accumulate_and_repair ps m cs ind = Inr (sm, pc, m', ind')"
    and inv: "consistent ps (length cs) (sm, pc, m', ind')"
    and en: "length cs \<le> length ps \<longrightarrow> (\<forall>c<length cs. 1 \<le> pc ! c \<and>
                 (c \<notin> set m \<longrightarrow> sm ! c = map (\<lambda>_. Fin 0) (cs ! c) \<and> pc ! c = 1))"
    by blast
  from inv have lp: "length pc = length cs" by (simp add: consistent_def)
  have upd: "update_centroids ps m cs ind = Inr (compute_new_centroids sm pc, m', ind')"
    using run by (simp add: update_centroids_def)
  have "(\<forall>c<length cs. pc ! c \<noteq> 0) \<longleftrightarrow> length cs \<le> length ps"
  proof
    assume "\<forall>c<length cs. pc ! c \<noteq> 0"
    then have "\<forall>c<length pc. 1 \<le> pc ! c" using lp by (simp add: Suc_le_eq)
    from sum_nth_ge_length [OF this] counts_sum [OF inv] lp
    show "length cs \<le> length ps" by simp
  next
    assume "length cs \<le> length ps"
    with en show "\<forall>c<length cs. pc ! c \<noteq> 0" by fastforce
  qed
  with run upd lp show "\<exists>sm pc m' ind'.
         accumulate_and_repair ps m cs ind = Inr (sm, pc, m', ind') \<and>
         update_centroids ps m cs ind = Inr (compute_new_centroids sm pc, m', ind') \<and>
         length pc = length cs \<and>
         ((\<forall>c<length cs. pc ! c \<noteq> 0) \<longleftrightarrow> length cs \<le> length ps)"
    by blast
next
  show "cluster_impl knn max_iter tol use_kd_tree ((KMeans [])\<lparr>cluster_centroids := cs\<rparr>) =
     Inr \<lparr> data_map = [], cluster_centroids = cs,
           cluster_point_indices = replicate (length cs) [],
           cluster_index_map = [], iteration_count = 0 \<rparr>"
    by (rule cluster_impl_no_points)
qed

text \<open>The theorem on three points and two clusters, all points assigned to cluster 1.\<close>

theorem repair_counts_nonzero_iff_enough_points_witness:
  "accumulate_and_repair [[1], [2], [10]] [1, 1, 1] [[Fin 5], [Fin 1]] (Some 1)
     = Inr ([[Fin 0], [Fin 3]], [1, 2], [1, 1, 0], Some 2) \<and>
   update_centroids [[1], [2], [10]] [1, 1, 1] [[Fin 5], [Fin 1]] (Some 1)
     = Inr ([[Fin 0], [Fin (3 / 2)]], [1, 1, 0], Some 2)"
proof -
  let ?ps = "[[1], [2], [10]] :: real list list"
  let ?cs = "[[Fin 5], [Fin 1]]"
  let ?m = "[1, 1, 1] :: nat list"
  have h: "?ps \<noteq> [] \<and> length ?m = length ?ps \<and> (\<forall>x\<in>set ?m. x < length ?cs)" by simp
  have ev: "accumulate_and_repair ?ps ?m ?cs (Some 1)
     = Inr ([[Fin 0], [Fin 3]], [1, 2], [1, 1, 0], Some 2)"
    by (simp add: model_defs upt_rec Let_def)
  from repair_counts_nonzero_iff_enough_points [of ?ps ?m ?cs "Some 1"] h
  have "\<exists>sm pc m' ind'.
         accumulate_and_repair ?ps ?m ?cs (Some 1) = Inr (sm, pc, m', ind') \<and>
         update_centroids ?ps ?m ?cs (Some 1) = Inr (compute_new_centroids sm pc, m', ind')"
    by blast
  with ev have "update_centroids ?ps ?m ?cs (Some 1)
     = Inr (compute_new_centroids [[Fin 0], [Fin 3]] [1, 2], [1, 1, 0], Some 2)"
    by simp
  then have "update_centroids ?ps ?m ?cs (Some 1) = Inr ([[Fin 0], [Fin (3 / 2)]], [1, 1, 0], Some 2)"
    by (simp add: compute_new_centroids_def v_scale_def recip_count_def upt_rec)
  with ev show ?thesis by simp
qed

text \<open>
  Against C5 as stated: one point and two explicit centroids.  After the repair the count
  of cluster 0 is zero; the run does not fail, it divides by that count and returns minus
  infinity as the centroid of cluster 0.
\<close>

theorem more_clusters_than_points_divides_by_zero:
  "accumulate_and_repair [[1]] [1] [[Fin 5], [Fin 1]] (Some 1)
     = Inr ([[Fin (- 1)], [Fin 0]], [0, 1], [1], Some 0) \<and>
   cluster_from_centroids (\<lambda>cs p. []) (KMeans [[1]]) [[5], [1]] 1 (Fin 0) False
     = Inr \<lparr> data_map = [[1]], cluster_centroids = [[NInf], [Fin 0]],
             cluster_point_indices = [[], [0]], cluster_index_map = [1],
             iteration_count = 1 \<rparr>"
  by (simp add: model_defs cluster_loop.simps upt_rec Let_def)

section \<open>The loop returns on the brute-force path\<close>

text \<open>
  This section is about the loop over the exact squared distance \<open>sq_dist\<close>, which is
  finite between finite columns.  With at least one centroid that loop never reads an
  index that was not stored and never leaves the range of a vector: either the centroids
  are finite, and the scan stores a cluster for every point, or the local
  \<open>extr_dist_ind\<close> already holds a cluster index from an earlier pass or a point index
  from an earlier repair, which is below the number of clusters whenever a division by a
  zero count has happened.
\<close>

lemma nearest_fold_index:
  "\<forall>j\<in>set js. j < K \<Longrightarrow> \<exists>e<K. snd acc = Some e \<Longrightarrow>
   \<exists>e<K. snd (fold (nearest_step cs p) js acc) = Some e"
proof (induction js arbitrary: acc)
  case Nil
  then show ?case by simp
next
  case (Cons j js)
  from Cons.prems have "\<exists>e<K. snd (nearest_step cs p j acc) = Some e"
    by (auto simp: nearest_step_unfold)
  with Cons.IH [of "nearest_step cs p j acc"] Cons.prems(1) show ?case by simp
qed

lemma nearest_index_bound:
  assumes "(fin_mat cs \<and> cs \<noteq> []) \<or> (\<exists>e<length cs. ind = Some e)"
  shows "\<exists>e<length cs. snd (nearest cs (col ps i) ind) = Some e"
proof (cases "fin_mat cs \<and> cs \<noteq> []")
  case True
  then have "fin_mat cs" "cs \<noteq> []" by simp_all
  from nearest_is_nearest [OF this fin_vec_col, of ps i ind] show ?thesis
    by (auto simp: is_nearest_def)
next
  case False
  with assms have "\<exists>e<length cs. snd (PInf, ind) = Some e" by simp
  from nearest_fold_index [OF _ this, of "[0..<length cs]" cs "col ps i"] show ?thesis
    by (simp add: nearest_def)
qed

lemma assign_brute_valid:
  "(fin_mat cs \<and> cs \<noteq> []) \<or> (\<exists>e<length cs. ind = Some e) \<Longrightarrow>
   \<exists>m' ind' u'. assign_brute ps cs is (m, ind, u) = Inr (m', ind', u') \<and>
      (is \<noteq> [] \<longrightarrow> (\<exists>e<length cs. ind' = Some e))"
proof (induction "is" arbitrary: m ind u)
  case Nil
  then show ?case by simp
next
  case (Cons i "is")
  from nearest_index_bound [OF Cons.prems, of ps i] obtain e where
    e: "e < length cs" "snd (nearest cs (col ps i) ind) = Some e" by blast
  then have H: "(fin_mat cs \<and> cs \<noteq> []) \<or> (\<exists>e'<length cs. Some e = Some e')" by simp
  from Cons.IH [OF H, of "m[i := e]" "u \<and> m ! i = e"] obtain m' ind' u' where
    res: "assign_brute ps cs is (m[i := e], Some e, u \<and> m ! i = e) = Inr (m', ind', u')"
    and id: "is \<noteq> [] \<longrightarrow> (\<exists>e<length cs. ind' = Some e)"
    by blast
  have "is = [] \<Longrightarrow> ind' = Some e" using res by simp
  with id e(1) have "\<exists>e<length cs. ind' = Some e" by (cases "is = []") auto
  moreover have "assign_brute ps cs (i # is) (m, ind, u) = Inr (m', ind', u')"
    using e res by simp
  ultimately show ?case by blast
qed

lemma assign_brute_stores_index:
  "assign_brute ps cs is (m, ind, u) = Inr (m', ind', u') \<Longrightarrow> distinct is \<Longrightarrow>
   \<forall>i\<in>set is. i < length m \<Longrightarrow>
   (fin_mat cs \<and> cs \<noteq> []) \<or> (\<exists>e<length cs. ind = Some e) \<Longrightarrow>
   \<forall>i\<in>set is. m' ! i < length cs"
proof (induction "is" arbitrary: m ind u)
  case Nil
  then show ?case by simp
next
  case (Cons i "is")
  from nearest_index_bound [OF Cons.prems(4), of ps i] obtain e where
    e: "e < length cs" "snd (nearest cs (col ps i) ind) = Some e" by blast
  with Cons.prems(1) have
    rest: "assign_brute ps cs is (m[i := e], Some e, u \<and> m ! i = e) = Inr (m', ind', u')"
    by simp
  from Cons.prems have d: "distinct is" and ni: "i \<notin> set is" and il: "i < length m"
    and b: "\<forall>k\<in>set is. k < length (m[i := e])" by simp_all
  from e have H: "(fin_mat cs \<and> cs \<noteq> []) \<or> (\<exists>e'<length cs. Some e = Some e')" by simp
  from Cons.IH [OF rest d b H] have tl: "\<forall>k\<in>set is. m' ! k < length cs" .
  from assign_brute_flag [OF rest d b] ni il have "m' ! i = e" by simp
  with e(1) tl show ?case by simp
qed

lemma brute_pass_ok:
  assumes H: "(fin_mat cs \<and> cs \<noteq> []) \<or> (\<exists>e<length cs. ind = Some e)"
    and lm: "length m = length ps"
  shows "\<exists>m1 ind1 u. update_assignments knn False ps cs m ind = Inr (m1, ind1, u) \<and>
           length m1 = length ps \<and> (\<forall>x\<in>set m1. x < length cs) \<and> (u \<longleftrightarrow> m1 = m) \<and>
           (ps \<noteq> [] \<longrightarrow> (\<exists>e<length cs. ind1 = Some e))"
proof -
  from assign_brute_valid [OF H, of ps "[0..<length ps]" m True] obtain m1 ind1 u where
    res: "assign_brute ps cs [0..<length ps] (m, ind, True) = Inr (m1, ind1, u)"
    and id: "[0..<length ps] \<noteq> [] \<longrightarrow> (\<exists>e<length cs. ind1 = Some e)"
    by blast
  have d: "distinct [0..<length ps]" and b: "\<forall>i\<in>set [0..<length ps]. i < length m"
    using lm by simp_all
  from assign_brute_stores_index [OF res d b H]
  have st: "\<forall>i<length ps. m1 ! i < length cs" by simp
  have upd: "update_assignments knn False ps cs m ind = Inr (m1, ind1, u)"
    using res by (simp add: update_assignments_def)
  from update_assignments_flag [OF upd lm]
  have len: "length m1 = length ps" and fl: "u \<longleftrightarrow> m1 = m" by simp_all
  have "\<forall>x\<in>set m1. x < length cs"
    using st len by (auto simp: in_set_conv_nth)
  moreover from id have "ps \<noteq> [] \<longrightarrow> (\<exists>e<length cs. ind1 = Some e)" by simp
  ultimately show ?thesis using upd len fl by blast
qed

lemma converged_returns:
  assumes "cs \<noteq> []" and "length old = length cs"
  shows "\<exists>b. converged tol old cs = Inr b"
proof -
  from assms obtain c cs' o' old' where "cs = c # cs'" "old = o' # old'"
    by (cases cs; cases old) auto
  then show ?thesis by (cases "s_less (Fin 0) tol") (auto simp: converged_def maxCoeff_def)
qed

lemma cluster_loop_changed:
  "iteration_count st < max_iter \<Longrightarrow>
   update_assignments knn kd (data_map st) (cluster_centroids st) (cluster_index_map st) ind
     = Inr (m1, ind1, False) \<Longrightarrow>
   update_centroids (data_map st) m1 (cluster_centroids st) ind1 = Inr (cs2, m2, ind2) \<Longrightarrow>
   converged tol (cluster_centroids st) cs2 = Inr stop \<Longrightarrow>
   cluster_loop knn max_iter tol kd (st, ind) =
     (if stop
      then Inr (st\<lparr>cluster_centroids := cs2, cluster_index_map := m2,
                  iteration_count := iteration_count st + 1\<rparr>)
      else cluster_loop knn max_iter tol kd
             (st\<lparr>cluster_centroids := cs2, cluster_index_map := m2,
                  iteration_count := iteration_count st + 1\<rparr>, ind2))"
  by (subst cluster_loop.simps) simp

lemma cluster_loop_total:
  "cluster_centroids st \<noteq> [] \<Longrightarrow>
   length (cluster_index_map st) = length (data_map st) \<Longrightarrow>
   \<forall>x\<in>set (cluster_index_map st). x < length (cluster_centroids st) \<Longrightarrow>
   fin_mat (cluster_centroids st) \<or> (\<exists>e<length (cluster_centroids st). ind = Some e) \<Longrightarrow>
   \<exists>st'. cluster_loop knn max_iter tol False (st, ind) = Inr st' \<and>
     data_map st' = data_map st \<and>
     length (cluster_centroids st') = length (cluster_centroids st) \<and>
     length (cluster_index_map st') = length (data_map st) \<and>
     (\<forall>x\<in>set (cluster_index_map st'). x < length (cluster_centroids st)) \<and>
     cluster_point_indices st' = cluster_point_indices st"
proof (induction "max_iter - iteration_count st" arbitrary: st ind)
  case 0
  then have "\<not> iteration_count st < max_iter" by simp
  from cluster_loop_done [OF this] 0 show ?case by simp
next
  case (Suc d)
  let ?ps = "data_map st" and ?cs = "cluster_centroids st" and ?m = "cluster_index_map st"
  from Suc.hyps(2) have lt: "iteration_count st < max_iter" by simp
  from Suc.prems(1,4) have H: "(fin_mat ?cs \<and> ?cs \<noteq> []) \<or> (\<exists>e<length ?cs. ind = Some e)"
    by blast
  from brute_pass_ok [OF H Suc.prems(2), of knn] obtain m1 ind1 u where
    pass: "update_assignments knn False ?ps ?cs ?m ind = Inr (m1, ind1, u)"
    and l1: "length m1 = length ?ps" and v1: "\<forall>x\<in>set m1. x < length ?cs"
    and fl: "u \<longleftrightarrow> m1 = ?m" and i1: "?ps \<noteq> [] \<longrightarrow> (\<exists>e<length ?cs. ind1 = Some e)"
    by blast
  show ?case
  proof (cases u)
    case True
    with pass have "update_assignments knn False ?ps ?cs ?m ind = Inr (m1, ind1, True)" by simp
    from cluster_loop_unchanged [OF lt this] l1 v1 show ?thesis by simp
  next
    case False
    have ne: "?ps \<noteq> []"
    proof
      assume "?ps = []"
      with l1 Suc.prems(2) have "m1 = ?m" by simp
      with fl False show False by simp
    qed
    with i1 obtain e1 where e1: "e1 < length ?cs" "ind1 = Some e1" by blast
    from update_centroids_ok [OF l1 v1 ne, of ind1] obtain cs2 m2 ind2 where
      upd: "update_centroids ?ps m1 ?cs ind1 = Inr (cs2, m2, ind2)"
      and l2: "length cs2 = length ?cs" "length m2 = length ?ps"
      and v2: "\<forall>x\<in>set m2. x < length ?cs"
      and i2: "ind2 = ind1 \<or> (\<exists>e<length ?ps. ind2 = Some e)"
      and f2: "length ?cs \<le> length ?ps \<longrightarrow> fin_mat cs2"
      by blast
    from Suc.prems(1) l2(1) have ne2: "cs2 \<noteq> []" by auto
    from converged_returns [OF ne2, of ?cs tol] l2(1) obtain stop where
      cv: "converged tol ?cs cs2 = Inr stop" by auto
    let ?st2 = "st\<lparr>cluster_centroids := cs2, cluster_index_map := m2,
                  iteration_count := iteration_count st + 1\<rparr>"
    from pass False have pass': "update_assignments knn False ?ps ?cs ?m ind = Inr (m1, ind1, False)"
      by simp
    note unf = cluster_loop_changed [OF lt pass' upd cv]
    show ?thesis
    proof (cases stop)
      case True
      with unf l2 v2 show ?thesis by simp
    next
      case F: False
      have a: "d = max_iter - iteration_count ?st2" using Suc.hyps(2) by simp
      have b: "cluster_centroids ?st2 \<noteq> []" using ne2 by simp
      have c: "length (cluster_index_map ?st2) = length (data_map ?st2)" using l2 by simp
      have e: "\<forall>x\<in>set (cluster_index_map ?st2). x < length (cluster_centroids ?st2)"
        using v2 l2 by simp
      have f: "fin_mat (cluster_centroids ?st2) \<or>
          (\<exists>e<length (cluster_centroids ?st2). ind2 = Some e)"
      proof (cases "length ?cs \<le> length ?ps")
        case True
        with f2 show ?thesis by simp
      next
        case False
        with i2 e1 l2(1) show ?thesis by auto
      qed
      from Suc.hyps(1) [OF a b c e f] obtain st' where
        "cluster_loop knn max_iter tol False (?st2, ind2) = Inr st'"
        "data_map st' = data_map ?st2"
        "length (cluster_centroids st') = length (cluster_centroids ?st2)"
        "length (cluster_index_map st') = length (data_map ?st2)"
        "\<forall>x\<in>set (cluster_index_map st'). x < length (cluster_centroids ?st2)"
        "cluster_point_indices st' = cluster_point_indices ?st2"
        by blast
      with unf F l2 show ?thesis by simp
    qed
  qed
qed

section \<open>What the loop leaves alone, and the buckets\<close>

lemma accumulate_length:
  "accumulate ps m is (cs, pc) = Inr (cs', pc') \<Longrightarrow> length cs' = length cs"
proof (induction "is" arbitrary: cs pc)
  case Nil
  then show ?case by simp
next
  case (Cons i "is")
  from Cons.prems have c: "m ! i < length cs"
    and rest: "accumulate ps m is
             (cs[m ! i := v_add (cs ! (m ! i)) (col ps i)], pc[m ! i := pc ! (m ! i) + 1])
           = Inr (cs', pc')"
    by (auto split: if_splits)
  from Cons.IH [OF rest] show ?case by simp
qed

lemma repair_cluster_length:
  "repair_cluster ps i (cs, pc, m, ind) = Inr (cs', pc', m', ind') \<Longrightarrow> length cs' = length cs"
  by (auto simp: repair_cluster_def Let_def split: if_splits option.splits)

lemma repair_loop_length:
  "repair_loop ps is (cs, pc, m, ind) = Inr (cs', pc', m', ind') \<Longrightarrow> length cs' = length cs"
proof (induction "is" arbitrary: cs pc m ind)
  case Nil
  then show ?case by simp
next
  case (Cons i "is")
  from Cons.prems obtain cs1 pc1 m1 ind1 where
    one: "repair_cluster ps i (cs, pc, m, ind) = Inr (cs1, pc1, m1, ind1)"
    and rest: "repair_loop ps is (cs1, pc1, m1, ind1) = Inr (cs', pc', m', ind')"
    by (auto split: sum.splits)
  from Cons.IH [OF rest] repair_cluster_length [OF one] show ?case by simp
qed

lemma update_centroids_length:
  assumes "update_centroids ps m cs ind = Inr (cs2, m2, ind2)"
  shows "length cs2 = length cs"
proof -
  from assms obtain sm pc where
    run: "accumulate_and_repair ps m cs ind = Inr (sm, pc, m2, ind2)"
    and cs2: "cs2 = compute_new_centroids sm pc"
    by (auto simp: update_centroids_def split: sum.splits)
  from run obtain sm0 pc0 where
    acc: "accumulate ps m [0..<length ps]
             (map (map (\<lambda>_. Fin 0)) cs, replicate (length cs) 0) = Inr (sm0, pc0)"
    and rep: "repair_loop ps [0..<length cs] (sm0, pc0, m, ind) = Inr (sm, pc, m2, ind2)"
    by (auto simp: accumulate_and_repair_def split: sum.splits)
  from accumulate_length [OF acc] repair_loop_length [OF rep] cs2 show ?thesis
    by (simp add: compute_new_centroids_length)
qed

lemma cluster_loop_frame:
  "cluster_loop knn max_iter tol kd (st, ind) = Inr st' \<Longrightarrow>
   data_map st' = data_map st \<and>
   length (cluster_centroids st') = length (cluster_centroids st) \<and>
   cluster_point_indices st' = cluster_point_indices st"
proof (induction "max_iter - iteration_count st" arbitrary: st ind)
  case 0
  then have "\<not> iteration_count st < max_iter" by simp
  from cluster_loop_done [OF this] 0 show ?case by simp
next
  case (Suc d)
  let ?ps = "data_map st" and ?cs = "cluster_centroids st" and ?m = "cluster_index_map st"
  from Suc.hyps(2) have lt: "iteration_count st < max_iter" by simp
  show ?case
  proof (cases "update_assignments knn kd ?ps ?cs ?m ind")
    case (Inl e)
    from cluster_loop_assign_fails [OF lt Inl] Suc.prems show ?thesis by simp
  next
    case (Inr r)
    obtain m1 ind1 u where r: "r = (m1, ind1, u)" by (cases r) auto
    show ?thesis
    proof (cases u)
      case True
      with Inr r have "update_assignments knn kd ?ps ?cs ?m ind = Inr (m1, ind1, True)" by simp
      from cluster_loop_unchanged [OF lt this] Suc.prems show ?thesis by auto
    next
      case False
      with Inr r have pass: "update_assignments knn kd ?ps ?cs ?m ind = Inr (m1, ind1, False)"
        by simp
      show ?thesis
      proof (cases "update_centroids ?ps m1 ?cs ind1")
        case (Inl e)
        with lt pass Suc.prems show ?thesis by (simp add: cluster_loop.simps)
      next
        case upd: (Inr r2)
        obtain cs2 m2 ind2 where r2: "r2 = (cs2, m2, ind2)" by (cases r2) auto
        from upd r2 have upd': "update_centroids ?ps m1 ?cs ind1 = Inr (cs2, m2, ind2)" by simp
        from update_centroids_length [OF upd'] have l2: "length cs2 = length ?cs" .
        let ?st2 = "st\<lparr>cluster_centroids := cs2, cluster_index_map := m2,
                  iteration_count := iteration_count st + 1\<rparr>"
        show ?thesis
        proof (cases "converged tol ?cs cs2")
          case (Inl e)
          with lt pass upd' Suc.prems show ?thesis by (simp add: cluster_loop.simps)
        next
          case cv: (Inr stop)
          note unf = cluster_loop_changed [OF lt pass upd' cv]
          show ?thesis
          proof (cases stop)
            case True
            with unf Suc.prems l2 show ?thesis by auto
          next
            case F: False
            with unf Suc.prems have rec: "cluster_loop knn max_iter tol kd (?st2, ind2) = Inr st'"
              by simp
            have a: "d = max_iter - iteration_count ?st2" using Suc.hyps(2) by simp
            from Suc.hyps(1) [OF a rec] l2 show ?thesis by simp
          qed
        qed
      qed
    qed
  qed
qed

lemma fill_buckets_filter:
  "fill_buckets m is b = Inr b' \<Longrightarrow>
   length b' = length b \<and> (\<forall>i\<in>set is. m ! i < length b) \<and>
   (\<forall>c<length b. b' ! c = b ! c @ filter (\<lambda>i. m ! i = c) is)"
proof (induction "is" arbitrary: b)
  case Nil
  then show ?case by simp
next
  case (Cons i "is")
  let ?b = "b[m ! i := b ! (m ! i) @ [i]]"
  from Cons.prems have c: "m ! i < length b" and rest: "fill_buckets m is ?b = Inr b'"
    by (auto split: if_splits)
  from Cons.IH [OF rest] have len: "length b' = length b"
    and rng: "\<forall>k\<in>set is. m ! k < length b"
    and cont: "\<forall>c<length b. b' ! c = ?b ! c @ filter (\<lambda>i. m ! i = c) is"
    by simp_all
  have "\<forall>k<length b. b' ! k = b ! k @ filter (\<lambda>j. m ! j = k) (i # is)"
  proof (intro allI impI)
    fix k assume k: "k < length b"
    with cont have "b' ! k = ?b ! k @ filter (\<lambda>j. m ! j = k) is" by simp
    with k show "b' ! k = b ! k @ filter (\<lambda>j. m ! j = k) (i # is)"
      by (cases "k = m ! i") simp_all
  qed
  with len rng c show ?case by simp
qed

lemma fill_buckets_ok:
  "\<forall>i\<in>set is. m ! i < length b \<Longrightarrow> \<exists>b'. fill_buckets m is b = Inr b'"
proof (induction "is" arbitrary: b)
  case Nil
  then show ?case by simp
next
  case (Cons i "is")
  then have "\<forall>k\<in>set is. m ! k < length (b[m ! i := b ! (m ! i) @ [i]])" by simp
  from Cons.IH [OF this] Cons.prems show ?case by simp
qed

lemma length_filter_index:
  "length (filter (\<lambda>i. m ! i = c) is) = count_list (map ((!) m) is) c"
  by (induction "is") simp_all

lemma buckets_exact_partition:
  assumes len: "length B = K" and rng: "\<forall>i<N. m ! i < K"
    and cont: "\<forall>c<K. B ! c = filter (\<lambda>i. m ! i = c) [0..<N]"
  shows "exact_partition N B"
  unfolding exact_partition_def
proof (intro conjI allI impI)
  fix i assume i: "i < N"
  show "\<exists>!c. c < length B \<and> i \<in> set (B ! c)"
  proof (rule ex1I [of _ "m ! i"])
    from i rng cont len show "m ! i < length B \<and> i \<in> set (B ! (m ! i))" by simp
  next
    fix c assume "c < length B \<and> i \<in> set (B ! c)"
    with len cont show "c = m ! i" by auto
  qed
next
  fix c assume "c < length B"
  with len cont show "distinct (B ! c)" by simp
next
  fix c assume "c < length B"
  with len cont show "set (B ! c) \<subseteq> {0..<N}" by auto
next
  let ?m = "map ((!) m) [0..<N]"
  have v: "\<forall>x\<in>set ?m. x < K" using rng by simp
  have "B = map (\<lambda>c. filter (\<lambda>i. m ! i = c) [0..<N]) [0..<K]"
    using len cont by (intro nth_equalityI) simp_all
  then have "sum_list (map length B) = (\<Sum>c\<leftarrow>[0..<K]. length (filter (\<lambda>i. m ! i = c) [0..<N]))"
    by (simp add: comp_def)
  also have "\<dots> = (\<Sum>c\<leftarrow>[0..<K]. count_list ?m c)"
    by (simp add: length_filter_index)
  also have "\<dots> = (\<Sum>c<K. count_list ?m c)"
    by (simp add: interv_sum_list_conv_sum_set_nat atLeast0LessThan)
  also have "\<dots> = length ?m" using v by (rule sum_count_list)
  finally show "sum_list (map length B) = N" by simp
qed

section \<open>The first call on an object, from its entry to its buckets\<close>

lemma fin_mat_map_Fin: "fin_mat (map (map Fin) cs)"
  by (simp add: fin_mat_def fin_vec_def list_all_iff)

lemma fresh_init:
  "((KMeans ps)\<lparr>cluster_centroids := cs\<rparr>)
     \<lparr>cluster_index_map := resize (length (data_map ((KMeans ps)\<lparr>cluster_centroids := cs\<rparr>))) 0
         (cluster_index_map ((KMeans ps)\<lparr>cluster_centroids := cs\<rparr>)),
      iteration_count := 0\<rparr> = fresh ps cs"
  by (simp add: KMeans_def fresh_def resize_def)

lemma cluster_impl_fresh_cases:
  assumes "cluster_impl knn max_iter tol kd ((KMeans ps)\<lparr>cluster_centroids := cs\<rparr>) = Inr st'"
  shows "\<exists>st1 b. cluster_loop knn max_iter tol kd (fresh ps cs, None) = Inr st1 \<and>
           fill_buckets (cluster_index_map st1) [0..<length ps]
             (resize (length cs) [] (cluster_point_indices st1)) = Inr b \<and>
           st' = st1\<lparr>cluster_point_indices := b\<rparr>"
proof -
  let ?s = "(KMeans ps)\<lparr>cluster_centroids := cs\<rparr>"
  let ?init = "?s\<lparr>cluster_index_map := resize (length (data_map ?s)) 0 (cluster_index_map ?s),
      iteration_count := 0\<rparr>"
  have init: "?init = fresh ps cs" by (rule fresh_init)
  have d: "data_map ?s = ps" "cluster_centroids ?s = cs" by (simp_all add: KMeans_def)
  show ?thesis
  proof (cases "cluster_loop knn max_iter tol kd (?init, None)")
    case (Inl e)
    from cluster_impl_loop_fails [OF Inl] assms show ?thesis by simp
  next
    case (Inr st1)
    show ?thesis
    proof (cases "fill_buckets (cluster_index_map st1) [0..<length (data_map ?s)]
         (resize (length (cluster_centroids ?s)) [] (cluster_point_indices st1))")
      case (Inl e)
      from cluster_impl_fill_fails [OF Inr Inl] assms show ?thesis by simp
    next
      case fill: (Inr b)
      from cluster_impl_returns [OF Inr fill] assms
      have "st' = st1\<lparr>cluster_point_indices := b\<rparr>" by simp
      moreover from Inr init have "cluster_loop knn max_iter tol kd (fresh ps cs, None) = Inr st1"
        by simp
      moreover from fill d have "fill_buckets (cluster_index_map st1) [0..<length ps]
             (resize (length cs) [] (cluster_point_indices st1)) = Inr b" by simp
      ultimately show ?thesis by blast
    qed
  qed
qed

lemma cluster_impl_fresh_partition:
  assumes "cluster_impl knn max_iter tol kd ((KMeans ps)\<lparr>cluster_centroids := cs\<rparr>) = Inr st'"
  shows "exact_partition (length ps) (cluster_point_indices st') \<and>
         length (cluster_point_indices st') = length (cluster_centroids st') \<and>
         length (cluster_centroids st') = length cs"
proof -
  from cluster_impl_fresh_cases [OF assms] obtain st1 b where
    loop: "cluster_loop knn max_iter tol kd (fresh ps cs, None) = Inr st1"
    and fill: "fill_buckets (cluster_index_map st1) [0..<length ps]
             (resize (length cs) [] (cluster_point_indices st1)) = Inr b"
    and st': "st' = st1\<lparr>cluster_point_indices := b\<rparr>"
    by blast
  from cluster_loop_frame [OF loop]
  have lc: "length (cluster_centroids st1) = length cs" and bk: "cluster_point_indices st1 = []"
    by (simp_all add: fresh_def)
  have rs: "resize (length cs) [] (cluster_point_indices st1) = replicate (length cs) []"
    using bk by (simp add: resize_def)
  from fill_buckets_filter [OF fill [unfolded rs]]
  have lb: "length b = length cs"
    and rng: "\<forall>i<length ps. cluster_index_map st1 ! i < length cs"
    and cont: "\<forall>c<length cs. b ! c = filter (\<lambda>i. cluster_index_map st1 ! i = c) [0..<length ps]"
    by simp_all
  from buckets_exact_partition [OF lb rng cont] lb lc st' show ?thesis by simp
qed

lemma cluster_impl_fresh_total:
  assumes "cs \<noteq> []" and "fin_mat cs"
  shows "\<exists>st'. cluster_impl knn max_iter tol False ((KMeans ps)\<lparr>cluster_centroids := cs\<rparr>) = Inr st'"
proof -
  have a: "cluster_centroids (fresh ps cs) \<noteq> []" using assms(1) by (simp add: fresh_def)
  have b: "length (cluster_index_map (fresh ps cs)) = length (data_map (fresh ps cs))"
    by (simp add: fresh_def)
  have c: "\<forall>x\<in>set (cluster_index_map (fresh ps cs)). x < length (cluster_centroids (fresh ps cs))"
    using assms(1) by (simp add: fresh_def)
  have d: "fin_mat (cluster_centroids (fresh ps cs)) \<or>
      (\<exists>e<length (cluster_centroids (fresh ps cs)). None = Some e)"
    using assms(2) by (simp add: fresh_def)
  from cluster_loop_total [OF a b c d, of knn max_iter tol] obtain st1 where
    loop: "cluster_loop knn max_iter tol False (fresh ps cs, None) = Inr st1"
    and lm: "length (cluster_index_map st1) = length ps"
    and vm: "\<forall>x\<in>set (cluster_index_map st1). x < length cs"
    and bk: "cluster_point_indices st1 = []"
    by (auto simp: fresh_def)
  have "\<forall>i\<in>set [0..<length ps]. cluster_index_map st1 ! i
      < length (resize (length cs) [] (cluster_point_indices st1))"
    using lm vm bk by (simp add: resize_def)
  from fill_buckets_ok [OF this] obtain bs where
    "fill_buckets (cluster_index_map st1) [0..<length ps]
       (resize (length cs) [] (cluster_point_indices st1)) = Inr bs" by blast
  from cluster_impl_fresh_returns [OF loop this] show ?thesis by blast
qed

lemma cluster_num_clusters_total:
  assumes "0 < k"
  shows "\<exists>st'. cluster_num_clusters rnd knn (KMeans ps) k max_iter tol False = Inr st'"
proof -
  from cluster_num_clusters_unfold [of k ps rnd knn] obtain cents where
    len: "length cents = min k (length ps)" and fin: "fin_mat cents"
    and eq: "cluster_num_clusters rnd knn (KMeans ps) k max_iter tol False
         = cluster_impl knn max_iter tol False ((KMeans ps)\<lparr>cluster_centroids := cents\<rparr>)"
    by blast
  show ?thesis
  proof (cases "ps = []")
    case True
    with eq cluster_impl_no_points [of knn max_iter tol False cents] show ?thesis by simp
  next
    case False
    with len assms have "cents \<noteq> []" by (cases ps) auto
    from cluster_impl_fresh_total [OF this fin, of knn max_iter tol ps] eq show ?thesis by simp
  qed
qed

lemma cluster_num_clusters_partition:
  assumes "cluster_num_clusters rnd knn (KMeans ps) k max_iter tol kd = Inr st'"
  shows "exact_partition (length ps) (cluster_point_indices st') \<and>
         length (cluster_point_indices st') = length (cluster_centroids st') \<and>
         length (cluster_centroids st') = min k (length ps)"
proof -
  from cluster_num_clusters_unfold [of k ps rnd knn] obtain cents where
    len: "length cents = min k (length ps)"
    and eq: "cluster_num_clusters rnd knn (KMeans ps) k max_iter tol kd
         = cluster_impl knn max_iter tol kd ((KMeans ps)\<lparr>cluster_centroids := cents\<rparr>)"
    by blast
  from assms eq have "cluster_impl knn max_iter tol kd ((KMeans ps)\<lparr>cluster_centroids := cents\<rparr>)
      = Inr st'" by simp
  from cluster_impl_fresh_partition [OF this] len show ?thesis by simp
qed

lemma cluster_from_centroids_partition:
  assumes "cluster_from_centroids knn (KMeans ps) cs max_iter tol kd = Inr st'"
  shows "exact_partition (length ps) (cluster_point_indices st') \<and>
         length (cluster_point_indices st') = length (cluster_centroids st') \<and>
         length (cluster_centroids st') = length cs"
  using cluster_impl_fresh_partition [where cs = "map (map Fin) cs" and ps = ps and st' = st'
      and knn = knn and max_iter = max_iter and tol = tol and kd = kd] assms
  by (simp add: cluster_from_centroids_def)

lemma cluster_from_centroids_total:
  assumes "cs \<noteq> []"
  shows "\<exists>st'. cluster_from_centroids knn (KMeans ps) cs max_iter tol False = Inr st'"
proof -
  from assms have "map (map Fin) cs \<noteq> []" by simp
  from cluster_impl_fresh_total [OF this fin_mat_map_Fin] show ?thesis
    by (simp add: cluster_from_centroids_def)
qed

section \<open>The number of clusters\<close>

text \<open>
  C6, as the code has it.  A call with a cluster count \<open>k\<close> uses \<open>min k N\<close> clusters
  for \<open>N\<close> points, which is at most \<open>N\<close>: a count above \<open>N\<close> is clamped to \<open>N\<close>
  without notice, and on the brute-force path the call with \<open>k\<close> of at least 1 returns.
  A call with explicit centroids uses the centroids it is given, however many they are:
  there is no clamping on that entry point.
\<close>

theorem clamping_only_for_cluster_count:
  "(\<forall>st'. cluster_num_clusters rnd knn (KMeans ps) k max_iter tol use_kd_tree = Inr st' \<longrightarrow>
      length (cluster_centroids st') = min k (length ps)) \<and>
   (0 < k \<longrightarrow>
      (\<exists>st'. cluster_num_clusters rnd knn (KMeans ps) k max_iter tol False = Inr st' \<and>
         length (cluster_centroids st') = min k (length ps) \<and>
         length (cluster_centroids st') \<le> length ps)) \<and>
   (\<forall>st'. cluster_from_centroids knn (KMeans ps) cs max_iter tol use_kd_tree = Inr st' \<longrightarrow>
      length (cluster_centroids st') = length cs)"
proof (intro conjI allI impI)
  fix st' assume "cluster_num_clusters rnd knn (KMeans ps) k max_iter tol use_kd_tree = Inr st'"
  from cluster_num_clusters_partition [OF this]
  show "length (cluster_centroids st') = min k (length ps)" by simp
next
  assume "0 < k"
  from cluster_num_clusters_total [OF this, of rnd knn ps max_iter tol] obtain st' where
    run: "cluster_num_clusters rnd knn (KMeans ps) k max_iter tol False = Inr st'" by blast
  from cluster_num_clusters_partition [OF run]
  have "length (cluster_centroids st') = min k (length ps)" by simp
  with run show "\<exists>st'. cluster_num_clusters rnd knn (KMeans ps) k max_iter tol False = Inr st' \<and>
         length (cluster_centroids st') = min k (length ps) \<and>
         length (cluster_centroids st') \<le> length ps"
    by auto
next
  fix st' assume "cluster_from_centroids knn (KMeans ps) cs max_iter tol use_kd_tree = Inr st'"
  from cluster_from_centroids_partition [OF this]
  show "length (cluster_centroids st') = length cs" by simp
qed

text \<open>The theorem for 1000 clusters requested on five points: five clusters are used.\<close>

theorem clamping_only_for_cluster_count_witness:
  "\<exists>st'. cluster_num_clusters (\<lambda>i. 7 * i) (\<lambda>cs p. []) (KMeans [[1], [2], [3], [4], [5]])
            1000 100 (Fin 0) False = Inr st' \<and>
         length (cluster_centroids st') = 5"
proof -
  have h: "0 < (1000::nat)" by simp
  from clamping_only_for_cluster_count [where rnd = "\<lambda>i. 7 * i" and knn = "\<lambda>cs p. []"
      and ps = "[[1], [2], [3], [4], [5]]" and k = 1000 and max_iter = 100 and tol = "Fin 0"
      and use_kd_tree = False and cs = "[]"] h
  have "\<exists>st'. cluster_num_clusters (\<lambda>i. 7 * i) (\<lambda>cs p. []) (KMeans [[1], [2], [3], [4], [5]])
            1000 100 (Fin 0) False = Inr st' \<and>
         length (cluster_centroids st') = min 1000 (length [[1], [2], [3], [4], [5::real]])"
    by blast
  moreover have "min 1000 (length [[1], [2], [3], [4], [5::real]]) = 5" by simp
  ultimately show ?thesis by (simp only:)
qed

text \<open>Against C6 as stated: two explicit centroids on one point give two clusters.\<close>

theorem explicit_centroids_not_clamped:
  "cluster_from_centroids (\<lambda>cs p. []) (KMeans [[0]]) [[0], [5]] 100 (Fin 0) False
     = Inr \<lparr> data_map = [[0]], cluster_centroids = [[Fin 0], [Fin 5]],
             cluster_point_indices = [[0], []], cluster_index_map = [0],
             iteration_count = 0 \<rparr>"
  by (simp add: model_defs cluster_loop.simps upt_rec Let_def)

section \<open>The buckets are a partition\<close>








text \<open>
  No statement of the code clears the buckets, and \<open>resize\<close> keeps those of an earlier
  call: a second call on the same object appends to them, and they are no partition then.
  Here both calls are on three points with two explicit centroids, and each performs one
  iteration.
\<close>

lemma second_call_appends_to_buckets:
  "cluster_from_centroids (\<lambda>cs p. []) (KMeans [[1], [2], [10]]) [[5], [1]] 5 (Fin 0) False
     = Inr \<lparr> data_map = [[1], [2], [10]], cluster_centroids = [[Fin 10], [Fin (3 / 2)]],
             cluster_point_indices = [[2], [0, 1]], cluster_index_map = [1, 1, 0],
             iteration_count = 1 \<rparr> \<and>
   cluster_from_centroids (\<lambda>cs p. [])
     \<lparr> data_map = [[1], [2], [10]], cluster_centroids = [[Fin 10], [Fin (3 / 2)]],
       cluster_point_indices = [[2], [0, 1]], cluster_index_map = [1, 1, 0],
       iteration_count = 1 \<rparr> [[1], [5]] 1 (Fin 0) False
     = Inr \<lparr> data_map = [[1], [2], [10]], cluster_centroids = [[Fin (3 / 2)], [Fin 10]],
             cluster_point_indices = [[2, 0, 1], [0, 1, 2]], cluster_index_map = [0, 0, 1],
             iteration_count = 1 \<rparr>"
  by (simp add: model_defs cluster_loop.simps upt_rec Let_def)

end
